theory Spec2Isabelle
  imports Main "HOL-Library.Word"
begin

section \<open>Python values and errors\<close>

text \<open>
  The exceptions the readers can raise. \<open>DecodeError\<close> is what protobuf's
  \<open>ParseFromString\<close> raises on a payload it cannot parse, \<open>AttributeError\<close> what a method
  call on \<open>None\<close> raises, and \<open>ChunkError\<close> stands for any failure of the mcap library
  while it reads a chunk or runs its own iterators (corruption, checksum).
\<close>

datatype error =
    IndexError
  | KeyError
  | DecodeError
  | NotImplementedError
  | DecoderNotFoundError
  | AttributeError
  | ChunkError

text \<open>Python list indexing \<open>xs[i]\<close>: a negative index counts from the end, an index out
  of range raises \<open>IndexError\<close>.\<close>

definition nth_py :: "'a list \<Rightarrow> int \<Rightarrow> error + 'a" where
  "nth_py xs i =
     (if 0 \<le> i \<and> i < int (length xs) then Inr (xs ! nat i)
      else if i < 0 \<and> - int (length xs) \<le> i then Inr (xs ! nat (int (length xs) + i))
      else Inl IndexError)"

section \<open>Binary files\<close>

type_synonym byte = "8 word"

text \<open>
  A file opened for reading: its bytes and the stream position. \<open>clamped = False\<close> is a
  file from \<open>open(path, "rb")\<close>, where a seek past the end is allowed and moves the position
  there; \<open>clamped = True\<close> is a file from \<open>lzma.open(path, "rb")\<close>, whose seek reads forward
  and stops at the end of the decompressed stream.
\<close>

record binfile =
  content :: "byte list"
  position :: nat
  clamped :: bool

definition tell :: "binfile \<Rightarrow> nat" where
  "tell f = position f"

text \<open>\<open>f.seek(off, 0)\<close>\<close>

definition seek_set :: "nat \<Rightarrow> binfile \<Rightarrow> binfile" where
  "seek_set off f =
     f\<lparr>position := (if clamped f then min off (length (content f)) else off)\<rparr>"

text \<open>\<open>f.seek(n, 1)\<close>\<close>

definition seek_cur :: "nat \<Rightarrow> binfile \<Rightarrow> binfile" where
  "seek_cur n f = seek_set (position f + n) f"

text \<open>\<open>f.seek(0, 2)\<close>\<close>

definition seek_end :: "binfile \<Rightarrow> binfile" where
  "seek_end f = f\<lparr>position := length (content f)\<rparr>"

text \<open>\<open>f.read(n)\<close>: at most \<open>n\<close> bytes, fewer at the end of the file.\<close>

definition read :: "nat \<Rightarrow> binfile \<Rightarrow> byte list \<times> binfile" where
  "read n f =
     (let bs = take n (drop (position f) (content f))
      in (bs, f\<lparr>position := position f + length bs\<rparr>))"

text \<open>\<open>struct.unpack("<L", header)[0]\<close>: an unsigned little-endian integer.\<close>

definition unpack_L :: "byte list \<Rightarrow> nat" where
  "unpack_L header = foldr (\<lambda>b acc. unat b + 256 * acc) header 0"

section \<open>The single-channel reader\<close>

text \<open>
  The fields of \<open>_OSITraceSingle\<close>. The message type \<open>'m\<close> is the decoded protobuf
  message; the decoder \<open>parse\<close> (\<open>self.type()\<close> followed by \<open>ParseFromString\<close>) is a
  parameter of every operation that decodes, \<open>None\<close> where protobuf raises.
\<close>

record 'm single =
  file_obj :: binfile
  current_index :: int
  message_offsets :: "nat list"
  read_complete :: bool
  message_cache :: "(int \<rightharpoonup> 'm) option"

text \<open>What \<open>retrieve_message\<close> returns: \<open>None\<close>, an offset (when skipping) or a message.\<close>

datatype 'm retval = RNone | ROffset nat | RMessage 'm

definition header_length :: nat where
  "header_length = 4"

text \<open>\<open>_OSITraceSingle.__init__\<close> on an existing path.\<close>

definition open_single :: "bool \<Rightarrow> byte list \<Rightarrow> bool \<Rightarrow> 'm single" where
  "open_single lzma bytes cache_messages =
     \<lparr>file_obj = \<lparr>content = bytes, position = 0, clamped = lzma\<rparr>,
      current_index = 0,
      message_offsets = [0],
      read_complete = False,
      message_cache = (if cache_messages then Some Map.empty else None)\<rparr>"

text \<open>\<open>self.message_cache is not None and i in self.message_cache\<close>, with the entry.\<close>

definition cached :: "'m single \<Rightarrow> int \<Rightarrow> 'm option" where
  "cached s i = (case message_cache s of None \<Rightarrow> None | Some c \<Rightarrow> c i)"

text \<open>The first block of \<open>retrieve_message\<close>: \<open>if index is not None\<close>.\<close>

definition seek_index :: "int option \<Rightarrow> 'm single \<Rightarrow> error + 'm single" where
  "seek_index index s =
     (case index of
        None \<Rightarrow> Inr s
      | Some i \<Rightarrow>
          (case nth_py (message_offsets s) i of
             Inl e \<Rightarrow> Inl e
           | Inr off \<Rightarrow> Inr (s\<lparr>file_obj := seek_set off (file_obj s), current_index := i\<rparr>)))"

text \<open>The second block: the message at \<open>current_index\<close> is in the cache.\<close>

definition from_cache :: "'m \<Rightarrow> bool \<Rightarrow> 'm single \<Rightarrow> error + ('m retval \<times> 'm single)" where
  "from_cache message skip s =
     (let ci = current_index s + 1;
          s1 = s\<lparr>current_index := ci\<rparr>
      in case (if ci = int (length (message_offsets s1))
               then Inr (s1\<lparr>file_obj := seek_end (file_obj s1)\<rparr>)
               else (case nth_py (message_offsets s1) ci of
                       Inl e \<Rightarrow> Inl e
                     | Inr off \<Rightarrow> Inr (s1\<lparr>file_obj := seek_set off (file_obj s1)\<rparr>))) of
           Inl e \<Rightarrow> Inl e
         | Inr s2 \<Rightarrow>
             if skip
             then (case nth_py (message_offsets s2) ci of
                     Inl e \<Rightarrow> Inl e
                   | Inr off \<Rightarrow> Inr (ROffset off, s2))
             else Inr (RMessage message, s2))"

text \<open>
  The block the source repeats for a short header, a short skip and a short payload:
  drop the last offset and mark the read complete when the read started there, rewind
  to \<open>start\<close>, return \<open>None\<close>.
\<close>

definition end_of_stream :: "nat \<Rightarrow> 'm single \<Rightarrow> error + ('m retval \<times> 'm single)" where
  "end_of_stream start s =
     (case nth_py (message_offsets s) (- 1) of
        Inl e \<Rightarrow> Inl e
      | Inr l \<Rightarrow>
          (let s1 = (if start = l
                     then s\<lparr>message_offsets := butlast (message_offsets s),
                            read_complete := True\<rparr>
                     else s)
           in Inr (RNone, s1\<lparr>file_obj := seek_set start (file_obj s1)\<rparr>)))"

text \<open>The rest of \<open>retrieve_message\<close>, from \<open>start = self.file.tell()\<close> on.\<close>

definition read_next ::
  "(byte list \<Rightarrow> 'm option) \<Rightarrow> bool \<Rightarrow> 'm single \<Rightarrow> error + ('m retval \<times> 'm single)" where
  "read_next parse skip s =
     (let start = tell (file_obj s);
          (header, f1) = read header_length (file_obj s);
          s1 = s\<lparr>file_obj := f1\<rparr>
      in if length header < header_length then end_of_stream start s1
         else
           (let message_length = unpack_L header
            in if skip
               then
                 (let f2 = seek_cur message_length f1;
                      new_pos = tell f2;
                      s2 = s1\<lparr>file_obj := f2\<rparr>
                  in if int new_pos - int start < int message_length + int header_length
                     then end_of_stream start s2
                     else
                       (let s3 = s2\<lparr>current_index := current_index s2 + 1\<rparr>
                        in case nth_py (message_offsets s3) (- 1) of
                             Inl e \<Rightarrow> Inl e
                           | Inr l \<Rightarrow>
                               Inr (ROffset new_pos,
                                    if start = l
                                    then s3\<lparr>message_offsets := message_offsets s3 @ [new_pos]\<rparr>
                                    else s3)))
               else
                 (let (message_data, f2) = read message_length f1;
                      s2 = s1\<lparr>file_obj := f2\<rparr>
                  in if length message_data < message_length
                     then end_of_stream start s2
                     else
                       (let s3 = s2\<lparr>current_index := current_index s2 + 1\<rparr>
                        in case parse message_data of
                             None \<Rightarrow> Inl DecodeError
                           | Some message \<Rightarrow>
                               (case nth_py (message_offsets s3) (- 1) of
                                  Inl e \<Rightarrow> Inl e
                                | Inr l \<Rightarrow>
                                    Inr (RMessage message,
                                         if start = l
                                         then s3\<lparr>message_cache :=
                                                   map_option
                                                     (\<lambda>c. c(int (length (message_offsets s3)) - 1
                                                              \<mapsto> message))
                                                     (message_cache s3),
                                                 message_offsets :=
                                                   message_offsets s3 @ [tell (file_obj s3)]\<rparr>
                                         else s3))))))"

text \<open>\<open>_OSITraceSingle.retrieve_message(index, skip)\<close>\<close>

definition retrieve_message ::
  "(byte list \<Rightarrow> 'm option) \<Rightarrow> int option \<Rightarrow> bool \<Rightarrow> 'm single
     \<Rightarrow> error + ('m retval \<times> 'm single)" where
  "retrieve_message parse index skip s =
     (case seek_index index s of
        Inl e \<Rightarrow> Inl e
      | Inr s1 \<Rightarrow>
          (case cached s1 (current_index s1) of
             Some message \<Rightarrow> from_cache message skip s1
           | None \<Rightarrow> read_next parse skip s1))"

text \<open>
  The loop of \<open>retrieve_offsets\<close>. \<open>not limit\<close> holds for \<open>None\<close> and for \<open>0\<close>. The loop
  need not end (a reader positioned past the end of the file, away from the last
  offset, reads \<open>None\<close> for ever), so its result is an option, \<open>None\<close> for a loop that
  never returns.
\<close>

definition within_limit :: "int option \<Rightarrow> 'm single \<Rightarrow> bool" where
  "within_limit limit s =
     (case limit of
        None \<Rightarrow> True
      | Some l \<Rightarrow> l = 0 \<or> int (length (message_offsets s)) \<le> l)"

partial_function (option) retrieve_offsets_loop ::
  "(byte list \<Rightarrow> 'm option) \<Rightarrow> int option \<Rightarrow> 'm single \<Rightarrow> (error + 'm single) option" where
  "retrieve_offsets_loop parse limit s =
     (if \<not> read_complete s \<and> within_limit limit s
      then (case retrieve_message parse None True s of
              Inl e \<Rightarrow> Some (Inl e)
            | Inr (r, s') \<Rightarrow> retrieve_offsets_loop parse limit s')
      else Some (Inr s))"

declare retrieve_offsets_loop.simps [code]

text \<open>\<open>_OSITraceSingle.retrieve_offsets(limit)\<close>: returns the offset table.\<close>

definition retrieve_offsets ::
  "(byte list \<Rightarrow> 'm option) \<Rightarrow> int option \<Rightarrow> 'm single
     \<Rightarrow> (error + (nat list \<times> 'm single)) option" where
  "retrieve_offsets parse limit s =
     (case (if \<not> read_complete s
            then (case nth_py (message_offsets s) (- 1) of
                    Inl e \<Rightarrow> Inl e
                  | Inr off \<Rightarrow>
                      Inr (s\<lparr>file_obj := seek_set off (file_obj s),
                             current_index := int (length (message_offsets s)) - 1\<rparr>))
            else Inr s) of
        Inl e \<Rightarrow> Some (Inl e)
      | Inr s1 \<Rightarrow>
          map_option (map_sum id (\<lambda>s2. (message_offsets s2, s2)))
            (retrieve_offsets_loop parse limit s1))"

text \<open>\<open>_OSITraceSingle.restart(index)\<close>: \<open>index if index else 0\<close> is \<open>0\<close> for \<open>None\<close>.\<close>

definition restart :: "int option \<Rightarrow> 'm single \<Rightarrow> error + 'm single" where
  "restart index s =
     (let ci = (case index of None \<Rightarrow> 0 | Some i \<Rightarrow> i)
      in case nth_py (message_offsets s) ci of
           Inl e \<Rightarrow> Inl e
         | Inr off \<Rightarrow> Inr (s\<lparr>file_obj := seek_set off (file_obj s), current_index := ci\<rparr>))"

text \<open>
  Truth value of what \<open>retrieve_message\<close> returns: \<open>None\<close> and \<open>0\<close> are false, a protobuf
  message object is always true.
\<close>

fun truthy :: "'m retval \<Rightarrow> bool" where
  "truthy RNone = False"
| "truthy (ROffset n) = (n \<noteq> 0)"
| "truthy (RMessage m) = True"

text \<open>
  \<open>_OSITraceSingle.__iter__\<close>, run to its end: the values the generator yields, and how
  it ends (the reader it leaves, or the exception it raises after the values).
\<close>

partial_function (option) iterate ::
  "(byte list \<Rightarrow> 'm option) \<Rightarrow> 'm single \<Rightarrow> ('m retval list \<times> (error + 'm single)) option" where
  "iterate parse s =
     (case retrieve_message parse None False s of
        Inl e \<Rightarrow> Some ([], Inl e)
      | Inr (message, s') \<Rightarrow>
          if truthy message
          then Option.bind (iterate parse s') (\<lambda>r. Some (message # fst r, snd r))
          else Some ([], Inr s'))"

declare iterate.simps [code]

text \<open>\<open>_OSITraceSingle.get_message_by_index(index)\<close>\<close>

definition get_message_by_index ::
  "(byte list \<Rightarrow> 'm option) \<Rightarrow> int \<Rightarrow> 'm single \<Rightarrow> (error + ('m retval \<times> 'm single)) option" where
  "get_message_by_index parse index s =
     (case (if index \<ge> int (length (message_offsets s))
            then map_option (map_sum id snd) (retrieve_offsets parse (Some index) s)
            else Some (Inr s)) of
        None \<Rightarrow> None
      | Some (Inl e) \<Rightarrow> Some (Inl e)
      | Some (Inr s1) \<Rightarrow>
          (case cached s1 index of
             Some message \<Rightarrow> Some (Inr (RMessage message, s1))
           | None \<Rightarrow> Some (retrieve_message parse (Some index) False s1)))"

text \<open>
  The loop of \<open>get_messages_in_index_range\<close>: a cached message is yielded without
  touching the file, \<open>None\<close> from \<open>retrieve_message\<close> breaks the loop.
\<close>

partial_function (option) index_range_loop ::
  "(byte list \<Rightarrow> 'm option) \<Rightarrow> int option \<Rightarrow> int \<Rightarrow> 'm single
     \<Rightarrow> ('m retval list \<times> (error + 'm single)) option" where
  "index_range_loop parse end_index current s =
     (if (case end_index of None \<Rightarrow> True | Some e \<Rightarrow> current < e)
      then (case cached s current of
              Some m \<Rightarrow>
                Option.bind (index_range_loop parse end_index (current + 1) s)
                  (\<lambda>r. Some (RMessage m # fst r, snd r))
            | None \<Rightarrow>
                (case retrieve_message parse None False s of
                   Inl e \<Rightarrow> Some ([], Inl e)
                 | Inr (message, s') \<Rightarrow>
                     (case message of
                        RNone \<Rightarrow> Some ([], Inr s')
                      | _ \<Rightarrow>
                          Option.bind (index_range_loop parse end_index (current + 1) s')
                            (\<lambda>r. Some (message # fst r, snd r)))))
      else Some ([], Inr s))"

declare index_range_loop.simps [code]

text \<open>\<open>_OSITraceSingle.get_messages_in_index_range(begin, end)\<close>, run to its end.\<close>

definition get_messages_in_index_range ::
  "(byte list \<Rightarrow> 'm option) \<Rightarrow> int \<Rightarrow> int option \<Rightarrow> 'm single
     \<Rightarrow> ('m retval list \<times> (error + 'm single)) option" where
  "get_messages_in_index_range parse begin end_index s =
     (case (if begin \<ge> int (length (message_offsets s))
            then map_option (map_sum id snd) (retrieve_offsets parse (Some begin) s)
            else Some (Inr s)) of
        None \<Rightarrow> None
      | Some (Inl e) \<Rightarrow> Some ([], Inl e)
      | Some (Inr s1) \<Rightarrow>
          (case restart (Some begin) s1 of
             Inl e \<Rightarrow> Some ([], Inl e)
           | Inr s2 \<Rightarrow> index_range_loop parse end_index begin s2))"

section \<open>The multi-channel reader and the facade\<close>

text \<open>
  Of \<open>_OSITraceMulti\<close> the facade's index operations only reach \<open>restart\<close>, which acts
  on the stored iterator \<open>_iter\<close> (of some type \<open>'it\<close>) and leaves the topic alone.
\<close>

record 'it multi =
  multi_iter :: "'it option"
  multi_topic :: string

text \<open>\<open>_OSITraceMulti.restart(index)\<close>\<close>

definition restart_multi :: "int option \<Rightarrow> 'it multi \<Rightarrow> error + 'it multi" where
  "restart_multi index m =
     (case index of
        Some i \<Rightarrow> Inl NotImplementedError
      | None \<Rightarrow> Inr (m\<lparr>multi_iter := None\<rparr>))"

text \<open>\<open>OSITrace.reader\<close>: \<open>None\<close> before a file is given, or one of the two readers.\<close>

datatype ('m, 'it) reader = NoReader | Single "'m single" | Multi "'it multi"

text \<open>\<open>OSITrace.restart(index)\<close>: forwards to the reader.\<close>

definition OSITrace_restart ::
  "int option \<Rightarrow> ('m, 'it) reader \<Rightarrow> error + ('m, 'it) reader" where
  "OSITrace_restart index t =
     (case t of
        NoReader \<Rightarrow> Inl AttributeError
      | Single s \<Rightarrow> map_sum id Single (restart index s)
      | Multi m \<Rightarrow> map_sum id Multi (restart_multi index m))"

text \<open>The legacy accessors of \<open>OSITrace\<close>: each tests \<open>isinstance(self.reader,
  _OSITraceSingle)\<close> and raises \<open>NotImplementedError\<close> otherwise.\<close>

definition OSITrace_retrieve_offsets ::
  "(byte list \<Rightarrow> 'm option) \<Rightarrow> int option \<Rightarrow> ('m, 'it) reader
     \<Rightarrow> (error + (nat list \<times> ('m, 'it) reader)) option" where
  "OSITrace_retrieve_offsets parse limit t =
     (case t of
        Single s \<Rightarrow> map_option (map_sum id (map_prod id Single)) (retrieve_offsets parse limit s)
      | _ \<Rightarrow> Some (Inl NotImplementedError))"

definition OSITrace_retrieve_message ::
  "(byte list \<Rightarrow> 'm option) \<Rightarrow> int option \<Rightarrow> bool \<Rightarrow> ('m, 'it) reader
     \<Rightarrow> error + ('m retval \<times> ('m, 'it) reader)" where
  "OSITrace_retrieve_message parse index skip t =
     (case t of
        Single s \<Rightarrow> map_sum id (map_prod id Single) (retrieve_message parse index skip s)
      | _ \<Rightarrow> Inl NotImplementedError)"

definition OSITrace_get_message_by_index ::
  "(byte list \<Rightarrow> 'm option) \<Rightarrow> int \<Rightarrow> ('m, 'it) reader
     \<Rightarrow> (error + ('m retval \<times> ('m, 'it) reader)) option" where
  "OSITrace_get_message_by_index parse index t =
     (case t of
        Single s \<Rightarrow>
          map_option (map_sum id (map_prod id Single)) (get_message_by_index parse index s)
      | _ \<Rightarrow> Some (Inl NotImplementedError))"

definition OSITrace_get_messages_in_index_range ::
  "(byte list \<Rightarrow> 'm option) \<Rightarrow> int \<Rightarrow> int option \<Rightarrow> ('m, 'it) reader
     \<Rightarrow> ('m retval list \<times> (error + ('m, 'it) reader)) option" where
  "OSITrace_get_messages_in_index_range parse begin end_index t =
     (case t of
        Single s \<Rightarrow>
          map_option (map_prod id (map_sum id Single))
            (get_messages_in_index_range parse begin end_index s)
      | _ \<Rightarrow> Some ([], Inl NotImplementedError))"

section \<open>The indexed mcap reader\<close>

text \<open>
  The records of the mcap library that \<open>IndexedSeekingReader\<close> touches, with the fields
  it reads. The schema type \<open>'sc\<close> and the decoded value type \<open>'d\<close> stay abstract.
\<close>

record message =
  channel_id :: nat
  log_time :: nat
  data :: "byte list"

datatype mcap_record = MessageRecord message | OtherRecord

record channel =
  topic :: string
  schema_id :: nat
  message_encoding :: string

record chunk_index =
  chunk_start_offset :: nat
  message_start_time :: nat
  message_end_time :: nat

record 'sc summary =
  chunk_indexes :: "chunk_index list"
  channels :: "nat \<rightharpoonup> channel"
  schemas :: "nat \<rightharpoonup> 'sc"

text \<open>The arguments of \<open>iter_messages\<close>; \<open>topics\<close> is a collection that can be searched
  any number of times (a list).\<close>

record filters =
  topics :: "string list option"
  start_time :: "nat option"
  end_time :: "nat option"
  log_time_order :: bool
  reverse :: bool

text \<open>What \<open>message_queue\<close> holds: a chunk index, or a message tuple with the offset of
  its chunk and its index in the chunk.\<close>

datatype 'sc queue_item =
    ChunkItem chunk_index
  | MessageItem "'sc option \<times> channel \<times> message" nat nat

text \<open>
  The mcap file and the mcap library, as the reader sees them through its calls. None
  of them changes while the file is read:
  \<^item> \<open>get_summary\<close>: \<open>self.get_summary()\<close>;
  \<^item> \<open>chunks_matching_topics\<close>: \<open>_chunks_matching_topics(summary, topics, start_time,
    end_time)\<close>;
  \<^item> \<open>read_chunk off\<close>: the records \<open>breakup_chunk\<close> gives for the chunk read at
    \<open>off + 1 + 8\<close>, or the error raised on the way;
  \<^item> \<open>non_seeking_messages\<close>: what \<open>NonSeekingReader(self._stream).iter_messages(...)\<close>
    yields;
  \<^item> \<open>mq_choose log_time_order reverse q\<close>: which of the items of a \<open>MessageQueue\<close>,
    listed in the order they were pushed, \<open>pop\<close> removes;
  \<^item> \<open>decoded_messages\<close>: what \<open>super().iter_decoded_messages()\<close> yields, or the error
    it raises;
  \<^item> \<open>decoder_factories\<close>: \<open>factory.decoder_for\<close> for each of
    \<open>self._decoder_factories\<close>.
\<close>

record ('sc, 'd) mcap =
  get_summary :: "'sc summary option"
  chunks_matching_topics ::
    "'sc summary \<Rightarrow> string list option \<Rightarrow> nat option \<Rightarrow> nat option \<Rightarrow> chunk_index list"
  read_chunk :: "nat \<Rightarrow> error + mcap_record list"
  non_seeking_messages ::
    "string list option \<Rightarrow> nat option \<Rightarrow> nat option \<Rightarrow> bool
       \<Rightarrow> ('sc option \<times> channel \<times> message) list"
  mq_choose :: "bool \<Rightarrow> bool \<Rightarrow> 'sc queue_item list \<Rightarrow> nat"
  decoded_messages :: "error + ('sc option \<times> channel \<times> message \<times> 'd) list"
  decoder_factories :: "(string \<Rightarrow> 'sc option \<Rightarrow> (byte list \<Rightarrow> 'd) option) list"

text \<open>The fields of \<open>IndexedSeekingReader\<close> that change: \<open>_index_map\<close> and the decoder
  cache \<open>_decoders\<close> of the base class.\<close>

record 'd indexed =
  index_map :: "(nat option \<times> nat) list"
  decoders :: "nat \<rightharpoonup> (byte list \<Rightarrow> 'd)"

text \<open>\<open>message_queue.pop()\<close> on a queue that is not empty: the chosen item and the rest.\<close>

definition mq_pop ::
  "('sc, 'd) mcap \<Rightarrow> filters \<Rightarrow> 'sc queue_item list \<Rightarrow> 'sc queue_item \<times> 'sc queue_item list" where
  "mq_pop env flt q =
     (let i = min (mq_choose env (log_time_order flt) (reverse flt) q) (length q - 1)
      in (q ! i, take i q @ drop (Suc i) q))"

text \<open>
  The loop over \<open>enumerate(breakup_chunk(chunk))\<close> in \<open>iter_messages\<close>: every message
  that passes the filters is pushed with the chunk offset and its index in the chunk.
\<close>

fun push_records ::
  "'sc summary \<Rightarrow> filters \<Rightarrow> nat \<Rightarrow> nat \<Rightarrow> mcap_record list \<Rightarrow> 'sc queue_item list
     \<Rightarrow> error + 'sc queue_item list" where
  "push_records summ flt off index_in_chunk [] q = Inr q"
| "push_records summ flt off index_in_chunk (OtherRecord # rs) q =
     push_records summ flt off (Suc index_in_chunk) rs q"
| "push_records summ flt off index_in_chunk (MessageRecord record # rs) q =
     (case channels summ (channel_id record) of
        None \<Rightarrow> Inl KeyError
      | Some ch \<Rightarrow>
          if (case topics flt of None \<Rightarrow> False | Some ts \<Rightarrow> topic ch \<notin> set ts)
          then push_records summ flt off (Suc index_in_chunk) rs q
          else if (case start_time flt of None \<Rightarrow> False | Some t \<Rightarrow> log_time record < t)
          then push_records summ flt off (Suc index_in_chunk) rs q
          else if (case end_time flt of None \<Rightarrow> False | Some t \<Rightarrow> log_time record \<ge> t)
          then push_records summ flt off (Suc index_in_chunk) rs q
          else
            (case (if schema_id ch = 0 then Inr None
                   else (case schemas summ (schema_id ch) of
                           None \<Rightarrow> Inl KeyError
                         | Some sc \<Rightarrow> Inr (Some sc))) of
               Inl e \<Rightarrow> Inl e
             | Inr schema \<Rightarrow>
                 push_records summ flt off (Suc index_in_chunk) rs
                   (q @ [MessageItem (schema, ch, record) off index_in_chunk])))"

text \<open>
  The generator \<open>iter_messages\<close> returns, between two of its steps: in the fallback
  branch the messages still to come, in the seeking branch the summary and the queue;
  in both the next global index.
\<close>

datatype 'sc gen =
    Linear "('sc option \<times> channel \<times> message) list" nat
  | Merging "'sc summary" "'sc queue_item list" nat

text \<open>The start of \<open>iter_messages\<close>, up to its first loop.\<close>

definition iter_messages ::
  "('sc, 'd) mcap \<Rightarrow> filters \<Rightarrow> 'd indexed \<Rightarrow> 'sc gen \<times> 'd indexed" where
  "iter_messages env flt s =
     (let s0 = s\<lparr>index_map := []\<rparr>;
          fallback =
            Linear (non_seeking_messages env (topics flt) (start_time flt) (end_time flt)
                      (log_time_order flt)) 0
      in case get_summary env of
           None \<Rightarrow> (fallback, s0)
         | Some summ \<Rightarrow>
             if length (chunk_indexes summ) = 0 then (fallback, s0)
             else (Merging summ
                     (map ChunkItem
                        (chunks_matching_topics env summ (topics flt) (start_time flt)
                           (end_time flt))) 0, s0))"

definition chunks_queued :: "'sc queue_item list \<Rightarrow> nat" where
  "chunks_queued q = length (filter (\<lambda>it. case it of ChunkItem c \<Rightarrow> True | _ \<Rightarrow> False) q)"

lemma mq_index: "q \<noteq> [] \<Longrightarrow> min (i :: nat) (length q - 1) < length q"
  by (cases q) auto

lemma mq_pop_length: "q \<noteq> [] \<Longrightarrow> mq_pop env flt q = (it, q') \<Longrightarrow> Suc (length q') = length q"
  using mq_index [of q "mq_choose env (log_time_order flt) (reverse flt) q"]
  by (auto simp: mq_pop_def Let_def)

lemma chunks_queued_append [simp]: "chunks_queued (xs @ ys) = chunks_queued xs + chunks_queued ys"
  by (simp add: chunks_queued_def)

lemma chunks_queued_remove:
  "i < length q \<Longrightarrow>
   chunks_queued q = chunks_queued (take i q @ drop (Suc i) q) + chunks_queued [q ! i]"
proof -
  assume "i < length q"
  then have "q = take i q @ [q ! i] @ drop (Suc i) q"
    by (simp add: id_take_nth_drop)
  then have "chunks_queued q = chunks_queued (take i q @ [q ! i] @ drop (Suc i) q)"
    by simp
  then show ?thesis by (simp only: chunks_queued_append)
qed

lemma mq_pop_chunks:
  assumes "q \<noteq> []" and "mq_pop env flt q = (it, q')"
  shows "chunks_queued q = chunks_queued q' + chunks_queued [it]"
proof -
  let ?i = "min (mq_choose env (log_time_order flt) (reverse flt) q) (length q - 1)"
  have "?i < length q" using assms(1) by (rule mq_index)
  from chunks_queued_remove [OF this] assms(2) show ?thesis
    by (auto simp: mq_pop_def Let_def)
qed

lemma push_records_chunks:
  "push_records summ flt off k rs q = Inr q' \<Longrightarrow> chunks_queued q' = chunks_queued q"
  by (induction summ flt off k rs q rule: push_records.induct)
     (auto simp: chunks_queued_def split: option.splits if_splits sum.splits)

text \<open>
  One step of the generator: run the body of \<open>iter_messages\<close> up to the next \<open>yield\<close>
  (\<open>Some\<close> of the tuple yielded, the generator and the reader after it), to its end
  (\<open>None\<close>) or to an exception. A popped chunk index is expanded and the loop goes on;
  it ends because every expansion leaves one chunk index less in the queue. The
  \<open>print\<close> of the index map before each \<open>yield\<close> writes to standard output only
  and is left out.
\<close>

function gen_next ::
  "('sc, 'd) mcap \<Rightarrow> filters \<Rightarrow> 'sc gen \<Rightarrow> 'd indexed
     \<Rightarrow> error + ((('sc option \<times> channel \<times> message \<times> nat) \<times> 'sc gen \<times> 'd indexed) option)" where
  "gen_next env flt (Linear [] global_idx) s = Inr None"
| "gen_next env flt (Linear (x # xs) global_idx) s =
     Inr (Some ((fst x, fst (snd x), snd (snd x), global_idx),
                Linear xs (Suc global_idx),
                s\<lparr>index_map := index_map s @ [(None, global_idx)]\<rparr>))"
| "gen_next env flt (Merging summ q global_idx) s =
     (if q = [] then Inr None
      else
        (case mq_pop env flt q of
           (ChunkItem next_item, q1) \<Rightarrow>
             (case read_chunk env (chunk_start_offset next_item) of
                Inl e \<Rightarrow> Inl e
              | Inr recs \<Rightarrow>
                  (case push_records summ flt (chunk_start_offset next_item) 0 recs q1 of
                     Inl e \<Rightarrow> Inl e
                   | Inr q2 \<Rightarrow> gen_next env flt (Merging summ q2 global_idx) s))
         | (MessageItem tup chunk_offset idx_in_chunk, q1) \<Rightarrow>
             Inr (Some ((fst tup, fst (snd tup), snd (snd tup), global_idx),
                        Merging summ q1 (Suc global_idx),
                        s\<lparr>index_map := index_map s @ [(Some chunk_offset, idx_in_chunk)]\<rparr>))))"
  by pat_completeness auto
termination
proof (relation "measure (\<lambda>(env, flt, g, s). case g of Merging summ q i \<Rightarrow> chunks_queued q | _ \<Rightarrow> 0)")
  show "wf (measure (\<lambda>(env :: ('sc, 'd) mcap, flt :: filters, g :: 'sc gen, s :: 'd indexed).
          case g of Merging summ q i \<Rightarrow> chunks_queued q | _ \<Rightarrow> 0))"
    by simp
next
  fix env :: "('sc, 'd) mcap" and flt summ q global_idx and s :: "'d indexed"
    and x and x1 q1 next_item recs q2
  assume "q \<noteq> []" "(x1, q1) = mq_pop env flt q" "x1 = ChunkItem next_item"
    "push_records summ flt (chunk_start_offset next_item) 0 recs q1 = Inr q2"
  then have "chunks_queued q = chunks_queued q1 + 1" "chunks_queued q2 = chunks_queued q1"
    using mq_pop_chunks [of q env flt x1 q1] push_records_chunks [of summ flt _ 0 recs q1 q2]
    by (auto simp: chunks_queued_def)
  then show "((env, flt, Merging summ q2 global_idx, s), env, flt, Merging summ q global_idx, s)
       \<in> measure (\<lambda>(env, flt, g, s). case g of Merging summ q i \<Rightarrow> chunks_queued q | _ \<Rightarrow> 0)"
    by simp
qed

text \<open>What is left of a generator: chunk indexes still queued, then items queued.\<close>

definition gen_size :: "'sc gen \<Rightarrow> nat \<times> nat" where
  "gen_size g = (case g of Linear xs i \<Rightarrow> (0, length xs)
                 | Merging summ q i \<Rightarrow> (chunks_queued q, length q))"

lemma gen_next_decreases:
  "gen_next env flt g s = Inr (Some (y, g', s')) \<Longrightarrow>
     (gen_size g', gen_size g) \<in> less_than <*lex*> less_than"
proof (induction env flt g s rule: gen_next.induct)
  case (1 env flt global_idx s)
  then show ?case by simp
next
  case (2 env flt x xs global_idx s)
  then show ?case by (auto simp: gen_size_def)
next
  case (3 env flt summ q global_idx s)
  show ?case
  proof (cases "q = []")
    case True
    with 3 show ?thesis by simp
  next
    case False
    obtain it q1 where pop: "mq_pop env flt q = (it, q1)" by (cases "mq_pop env flt q")
    note len = mq_pop_length [OF False pop] and ch = mq_pop_chunks [OF False pop]
    show ?thesis
    proof (cases it)
      case (ChunkItem next_item)
      from "3.prems" False pop ChunkItem obtain recs q2 where
        r: "read_chunk env (chunk_start_offset next_item) = Inr recs"
        and p: "push_records summ flt (chunk_start_offset next_item) 0 recs q1 = Inr q2"
        and n: "gen_next env flt (Merging summ q2 global_idx) s = Inr (Some (y, g', s'))"
        by (auto split: sum.splits)
      have "(gen_size g', gen_size (Merging summ q2 global_idx)) \<in> less_than <*lex*> less_than"
        using "3.IH" [OF False pop [symmetric] ChunkItem r p n] .
      moreover have "chunks_queued q2 < chunks_queued q"
        using push_records_chunks [OF p] ch ChunkItem by (simp add: chunks_queued_def)
      ultimately show ?thesis
        by (auto simp: gen_size_def split: gen.splits)
    next
      case (MessageItem tup chunk_offset idx_in_chunk)
      with "3.prems" False pop have "g' = Merging summ q1 (Suc global_idx)"
        by auto
      moreover have "chunks_queued q1 = chunks_queued q"
        using ch MessageItem by (simp add: chunks_queued_def)
      ultimately show ?thesis
        using len by (auto simp: gen_size_def)
    qed
  qed
qed

text \<open>A \<open>for\<close> loop over the generator that runs to its end: the tuples yielded, and
  the reader left or the exception raised after them.\<close>

function consume_all ::
  "('sc, 'd) mcap \<Rightarrow> filters \<Rightarrow> 'sc gen \<Rightarrow> 'd indexed
     \<Rightarrow> ('sc option \<times> channel \<times> message \<times> nat) list \<times> (error + 'd indexed)" where
  "consume_all env flt g s =
     (case gen_next env flt g s of
        Inl e \<Rightarrow> ([], Inl e)
      | Inr None \<Rightarrow> ([], Inr s)
      | Inr (Some (y, g', s')) \<Rightarrow>
          (let r = consume_all env flt g' s' in (y # fst r, snd r)))"
  by pat_completeness auto
termination
  by (relation "inv_image (less_than <*lex*> less_than) (\<lambda>(env, flt, g, s). gen_size g)")
     (auto dest: gen_next_decreases)

declare consume_all.simps [simp del]

text \<open>The loop of \<open>get\<close>: \<open>for _, _, _, idx in self.iter_messages(): if idx >=
  global_index: break\<close>.\<close>

function scan_to ::
  "('sc, 'd) mcap \<Rightarrow> filters \<Rightarrow> int \<Rightarrow> 'sc gen \<Rightarrow> 'd indexed \<Rightarrow> error + 'd indexed" where
  "scan_to env flt global_index g s =
     (case gen_next env flt g s of
        Inl e \<Rightarrow> Inl e
      | Inr None \<Rightarrow> Inr s
      | Inr (Some ((schema, ch, msg, idx), g', s')) \<Rightarrow>
          if int idx \<ge> global_index then Inr s'
          else scan_to env flt global_index g' s')"
  by pat_completeness auto
termination
  by (relation "inv_image (less_than <*lex*> less_than) (\<lambda>(env, flt, i, g, s). gen_size g)")
     (auto dest: gen_next_decreases)

declare scan_to.simps [simp del]

text \<open>\<open>iter_messages()\<close> with the default arguments, as \<open>get\<close> calls it.\<close>

definition default_filters :: filters where
  "default_filters =
     \<lparr>topics = None, start_time = None, end_time = None, log_time_order = True,
      reverse = False\<rparr>"

text \<open>A fresh \<open>iter_messages\<close> run with the given arguments, consumed to its end.\<close>

definition run_iter_messages ::
  "('sc, 'd) mcap \<Rightarrow> filters \<Rightarrow> 'd indexed
     \<Rightarrow> ('sc option \<times> channel \<times> message \<times> nat) list \<times> (error + 'd indexed)" where
  "run_iter_messages env flt s =
     (case iter_messages env flt s of (g, s0) \<Rightarrow> consume_all env flt g s0)"

text \<open>The loop over \<open>self._decoder_factories\<close> in \<open>decoded_message\<close>.\<close>

fun first_decoder ::
  "(string \<Rightarrow> 'sc option \<Rightarrow> (byte list \<Rightarrow> 'd) option) list \<Rightarrow> string \<Rightarrow> 'sc option
     \<Rightarrow> (byte list \<Rightarrow> 'd) option" where
  "first_decoder [] encoding schema = None"
| "first_decoder (factory # fs) encoding schema =
     (case factory encoding schema of
        Some decoder \<Rightarrow> Some decoder
      | None \<Rightarrow> first_decoder fs encoding schema)"

text \<open>The local function \<open>decoded_message\<close> of \<open>get\<close>.\<close>

definition decoded_message ::
  "('sc, 'd) mcap \<Rightarrow> 'sc option \<Rightarrow> channel \<Rightarrow> message \<Rightarrow> 'd indexed
     \<Rightarrow> error + ('d \<times> 'd indexed)" where
  "decoded_message env schema ch msg s =
     (case decoders s (channel_id msg) of
        Some decoder \<Rightarrow> Inr (decoder (data msg), s)
      | None \<Rightarrow>
          (case first_decoder (decoder_factories env) (message_encoding ch) schema of
             Some decoder \<Rightarrow>
               Inr (decoder (data msg),
                    s\<lparr>decoders := (decoders s)(channel_id msg \<mapsto> decoder)\<rparr>)
           | None \<Rightarrow> Inl DecoderNotFoundError))"

text \<open>The loop over \<open>enumerate(breakup_chunk(chunk))\<close> in \<open>get\<close>: the message whose
  index in the chunk is \<open>idx_in_chunk\<close>.\<close>

fun find_record :: "nat \<Rightarrow> nat \<Rightarrow> mcap_record list \<Rightarrow> message option" where
  "find_record idx_in_chunk j [] = None"
| "find_record idx_in_chunk j (OtherRecord # rs) = find_record idx_in_chunk (Suc j) rs"
| "find_record idx_in_chunk j (MessageRecord record # rs) =
     (if j = idx_in_chunk then Some record else find_record idx_in_chunk (Suc j) rs)"

text \<open>
  The second half of \<open>get\<close>, after the range check: look the index up in
  \<open>_index_map\<close>, then either take the message from a linear
  \<open>iter_decoded_messages()\<close> run (no chunk offset recorded) or read the chunk again,
  find the message at the recorded index and decode it.
\<close>

definition lookup_entry ::
  "('sc, 'd) mcap \<Rightarrow> int \<Rightarrow> 'd indexed
     \<Rightarrow> error + (('sc option \<times> channel \<times> message \<times> 'd) \<times> 'd indexed)" where
  "lookup_entry env global_index s =
     (case index_map s ! nat global_index of
        (None, idx_in_chunk) \<Rightarrow>
          (case decoded_messages env of
             Inl e \<Rightarrow> Inl e
           | Inr xs \<Rightarrow>
               if nat global_index < length xs
               then Inr (xs ! nat global_index, s)
               else Inl IndexError)
      | (Some chunk_offset, idx_in_chunk) \<Rightarrow>
          (case read_chunk env chunk_offset of
             Inl e \<Rightarrow> Inl e
           | Inr recs \<Rightarrow>
               (case find_record idx_in_chunk 0 recs of
                  None \<Rightarrow> Inl IndexError
                | Some record \<Rightarrow>
                    (case get_summary env of
                       None \<Rightarrow> Inl AttributeError
                     | Some summ \<Rightarrow>
                         (case channels summ (channel_id record) of
                            None \<Rightarrow> Inl KeyError
                          | Some ch \<Rightarrow>
                              (case (if schema_id ch = 0 then Inr None
                                     else (case schemas summ (schema_id ch) of
                                             None \<Rightarrow> Inl KeyError
                                           | Some sc \<Rightarrow> Inr (Some sc))) of
                                 Inl e \<Rightarrow> Inl e
                               | Inr schema \<Rightarrow>
                                   (case decoded_message env schema ch record s of
                                      Inl e \<Rightarrow> Inl e
                                    | Inr (decoded, s2) \<Rightarrow>
                                        Inr ((schema, ch, record, decoded), s2))))))))"

text \<open>\<open>IndexedSeekingReader.get(global_index)\<close>: extend the index map by a fresh
  \<open>iter_messages()\<close> run when it does not reach the index, check the range, look up.\<close>

definition get ::
  "('sc, 'd) mcap \<Rightarrow> int \<Rightarrow> 'd indexed
     \<Rightarrow> error + (('sc option \<times> channel \<times> message \<times> 'd) \<times> 'd indexed)" where
  "get env global_index s =
     (case (if global_index \<ge> int (length (index_map s))
            then (case iter_messages env default_filters s of
                    (g, s0) \<Rightarrow> scan_to env default_filters global_index g s0)
            else Inr s) of
        Inl e \<Rightarrow> Inl e
      | Inr s1 \<Rightarrow>
          if global_index < 0 \<or> global_index \<ge> int (length (index_map s1))
          then Inl IndexError
          else lookup_entry env global_index s1)"

section \<open>The flat container format\<close>

text \<open>
  A flat trace is a sequence of records, each a 4-byte little-endian length followed by
  that many bytes of payload. \<open>pack_L\<close> is \<open>struct.pack("<L", n)\<close>, the inverse of the
  \<open>struct.unpack\<close> the reader calls; \<open>offset_of recs j\<close> is the byte offset at which
  record \<open>j\<close> starts (the end of the trace for \<open>j = length recs\<close>).
\<close>

definition pack_L :: "nat \<Rightarrow> byte list" where
  "pack_L n = [word_of_nat n, word_of_nat (n div 256), word_of_nat (n div 65536),
               word_of_nat (n div 16777216)]"

definition frame :: "byte list \<Rightarrow> byte list" where
  "frame payload = pack_L (length payload) @ payload"

definition flat_trace :: "byte list list \<Rightarrow> byte list" where
  "flat_trace recs = concat (map frame recs)"

definition offset_of :: "byte list list \<Rightarrow> nat \<Rightarrow> nat" where
  "offset_of recs j = length (flat_trace (take j recs))"

text \<open>The payloads a trace can hold: short enough for the length prefix, and accepted by
  the decoder.\<close>

definition valid_records :: "(byte list \<Rightarrow> 'm option) \<Rightarrow> byte list list \<Rightarrow> bool" where
  "valid_records parse recs = list_all (\<lambda>r. length r < 2 ^ 32 \<and> parse r \<noteq> None) recs"

text \<open>
  A reader that is consistent with the trace \<open>recs\<close> it has open: the file holds the
  trace, the offset table lists the starts of the first records in order (with the end
  of the trace last when all \<open>length recs + 1\<close> boundaries are known), not empty before
  the end of the stream has been seen and at least one entry per record afterwards,
  and every cached message is the decoded record of its index, at an index below the
  last entry of the table (or at the last entry, once the end has been seen and removed
  from the table).
\<close>

definition cache_entries_ok ::
  "(byte list \<Rightarrow> 'm option) \<Rightarrow> byte list list \<Rightarrow> nat \<Rightarrow> bool \<Rightarrow> (int \<rightharpoonup> 'm) \<Rightarrow> bool" where
  "cache_entries_ok parse recs k complete c =
     (\<forall>i m. c i = Some m \<longrightarrow>
        0 \<le> i \<and> nat i < length recs \<and> parse (recs ! nat i) = Some m \<and>
        (nat i + 1 < k \<or> (nat i + 1 = k \<and> k = length recs \<and> complete)))"

definition consistent :: "(byte list \<Rightarrow> 'm option) \<Rightarrow> byte list list \<Rightarrow> 'm single \<Rightarrow> bool" where
  "consistent parse recs s =
     (content (file_obj s) = flat_trace recs \<and>
      length (message_offsets s) \<le> length recs + 1 \<and>
      map (offset_of recs) [0..<length (message_offsets s)] = message_offsets s \<and>
      (if read_complete s then length recs \<le> length (message_offsets s)
       else 1 \<le> length (message_offsets s)) \<and>
      (case message_cache s of
         None \<Rightarrow> True
       | Some c \<Rightarrow>
           cache_entries_ok parse recs (length (message_offsets s)) (read_complete s) c))"

text \<open>The position from which a \<open>retrieve_message(index, skip)\<close> call reads:
  \<open>self.file.tell()\<close> after the seek to the index.\<close>

definition read_start :: "int option \<Rightarrow> 'm single \<Rightarrow> error + nat" where
  "read_start index s =
     (case seek_index index s of Inl e \<Rightarrow> Inl e | Inr s1 \<Rightarrow> Inr (tell (file_obj s1)))"

section \<open>Truncated flat traces\<close>

text \<open>
  A tail that is not a complete record: fewer than four bytes of length prefix, or
  fewer payload bytes than the prefix announces. This is the condition under which
  \<open>retrieve_message\<close> takes one of its two short-read branches.
\<close>

definition partial_record :: "byte list \<Rightarrow> bool" where
  "partial_record tail =
     (length tail < 4 \<or> length tail < 4 + unpack_L (take 4 tail))"

text \<open>
  The reader after \<open>j\<close> sequential reads of a freshly opened file that holds the records
  \<open>recs\<close> followed by \<open>tail\<close>: positioned at the start of record \<open>j\<close>, the table holding the
  offsets of records \<open>0..j\<close>, the cache (when kept) holding the first \<open>j\<close> messages.
\<close>

definition reading_at ::
  "(byte list \<Rightarrow> 'm option) \<Rightarrow> bool \<Rightarrow> byte list list \<Rightarrow> byte list \<Rightarrow> bool \<Rightarrow> nat \<Rightarrow> 'm single" where
  "reading_at parse lzma recs tail cache_messages j =
     \<lparr>file_obj = \<lparr>content = flat_trace recs @ tail, position = offset_of recs j,
                  clamped = lzma\<rparr>,
      current_index = int j,
      message_offsets = map (offset_of recs) [0..<Suc j],
      read_complete = False,
      message_cache =
        (if cache_messages
         then Some (\<lambda>i. if 0 \<le> i \<and> i < int j then parse (recs ! nat i) else None)
         else None)\<rparr>"

section \<open>An example mcap file\<close>

text \<open>
  A file with one channel and one chunk at offset 100 that holds a schema or channel
  record and two messages in time order; the queue hands its items out in the order
  they were pushed, which here is the time order; the one decoder factory decodes a
  payload to itself.
\<close>

definition example_mcap :: "(unit, byte list) mcap" where
  "example_mcap =
     \<lparr>get_summary =
        Some \<lparr>chunk_indexes =
                 [\<lparr>chunk_start_offset = 100, message_start_time = 1, message_end_time = 3\<rparr>],
              channels =
                [1 \<mapsto> \<lparr>topic = ''gt'', schema_id = 0, message_encoding = ''protobuf''\<rparr>],
              schemas = Map.empty\<rparr>,
      chunks_matching_topics = (\<lambda>summ tp st en. chunk_indexes summ),
      read_chunk =
        (\<lambda>off. if off = 100
               then Inr [OtherRecord,
                         MessageRecord \<lparr>channel_id = 1, log_time = 1, data = [7]\<rparr>,
                         MessageRecord \<lparr>channel_id = 1, log_time = 3, data = [9]\<rparr>]
               else Inl ChunkError),
      non_seeking_messages = (\<lambda>tp st en lto. []),
      mq_choose = (\<lambda>lto rev q. 0),
      decoded_messages = Inl ChunkError,
      decoder_factories = [\<lambda>enc sc. Some (\<lambda>bs. bs)]\<rparr>"

section \<open>Facts about the container format\<close>

lemma unat8: "unat (word_of_nat n :: byte) = n mod 256"
  by (simp add: unat_of_nat)

lemma unpack_pack: "n < 2 ^ 32 \<Longrightarrow> unpack_L (pack_L n) = n"
proof -
  assume n: "n < 2 ^ 32"
  have a: "n div 16777216 mod 256 = n div 16777216" using n by simp
  have b: "n div 65536 mod 256 + 256 * (n div 16777216) = n div 65536"
    using div_mult2_eq[of n 65536 256] by simp
  have c: "n div 256 mod 256 + 256 * (n div 65536) = n div 256"
    using div_mult2_eq[of n 256 256] by simp
  have d: "n mod 256 + 256 * (n div 256) = n" by simp
  show ?thesis
    unfolding unpack_L_def pack_L_def
    by (simp add: unat8 a b c d)
qed

lemma length_pack_L [simp]: "length (pack_L n) = 4"
  by (simp add: pack_L_def)

lemma length_frame [simp]: "length (frame r) = 4 + length r"
  by (simp add: frame_def)

lemma flat_trace_append: "flat_trace (xs @ ys) = flat_trace xs @ flat_trace ys"
  by (simp add: flat_trace_def)

lemma flat_trace_split:
  "j < length recs \<Longrightarrow>
   flat_trace recs = flat_trace (take j recs) @ frame (recs ! j) @ flat_trace (drop (Suc j) recs)"
proof -
  assume j: "j < length recs"
  have "recs = take j recs @ recs ! j # drop (Suc j) recs"
    using j by (simp add: id_take_nth_drop)
  then have "flat_trace recs = flat_trace (take j recs @ recs ! j # drop (Suc j) recs)"
    by simp
  then show ?thesis by (simp add: flat_trace_def)
qed

lemma offset_of_0 [simp]: "offset_of recs 0 = 0"
  by (simp add: offset_of_def flat_trace_def)

lemma offset_of_Suc:
  "j < length recs \<Longrightarrow> offset_of recs (Suc j) = offset_of recs j + 4 + length (recs ! j)"
  by (simp add: offset_of_def take_Suc_conv_app_nth flat_trace_append) (simp add: flat_trace_def)

lemma offset_of_length: "offset_of recs (length recs) = length (flat_trace recs)"
  by (simp add: offset_of_def)

lemma drop_boundary:
  "j < length recs \<Longrightarrow>
   drop (offset_of recs j) (flat_trace recs @ tail) =
     pack_L (length (recs ! j)) @ recs ! j @ flat_trace (drop (Suc j) recs) @ tail"
  using flat_trace_split [of j recs] by (simp add: offset_of_def frame_def)

lemma drop_end: "drop (offset_of recs (length recs)) (flat_trace recs @ tail) = tail"
  by (simp add: offset_of_def)

lemma offset_of_mono: "i \<le> j \<Longrightarrow> j \<le> length recs \<Longrightarrow> offset_of recs i \<le> offset_of recs j"
proof (induction j)
  case 0 then show ?case by simp
next
  case (Suc j)
  show ?case
  proof (cases "i = Suc j")
    case True then show ?thesis by simp
  next
    case False
    with Suc have "offset_of recs i \<le> offset_of recs j" by simp
    moreover have "offset_of recs j \<le> offset_of recs (Suc j)"
      using Suc.prems by (simp add: offset_of_Suc)
    ultimately show ?thesis by simp
  qed
qed

lemma offset_of_strict: "i < j \<Longrightarrow> j \<le> length recs \<Longrightarrow> offset_of recs i < offset_of recs j"
proof -
  assume a: "i < j" "j \<le> length recs"
  then have "offset_of recs (Suc i) \<le> offset_of recs j" by (intro offset_of_mono) auto
  moreover have "offset_of recs i < offset_of recs (Suc i)" using a by (simp add: offset_of_Suc)
  ultimately show ?thesis by simp
qed

lemma offset_of_inj:
  "i \<le> length recs \<Longrightarrow> j \<le> length recs \<Longrightarrow> offset_of recs i = offset_of recs j \<longleftrightarrow> i = j"
  by (metis nat_neq_iff offset_of_strict)

lemma nth_py_last: "nth_py xs (- 1) = (if xs = [] then Inl IndexError else Inr (last xs))"
  by (cases xs rule: rev_cases) (simp_all add: nth_py_def)

lemma nth_py_nat: "nth_py xs (int j) = (if j < length xs then Inr (xs ! j) else Inl IndexError)"
  by (simp add: nth_py_def)

lemma read_header:
  assumes "content f = flat_trace recs @ tail"
    and "position f = offset_of recs j"
    and "j < length recs"
  shows "read 4 f = (pack_L (length (recs ! j)), f\<lparr>position := offset_of recs j + 4\<rparr>)"
proof -
  have "drop (position f) (content f) =
        pack_L (length (recs ! j)) @ recs ! j @ flat_trace (drop (Suc j) recs) @ tail"
    using assms drop_boundary [of j recs tail] by simp
  then show ?thesis
    using assms(2) by (simp add: read_def Let_def)
qed

lemma read_payload:
  assumes "content f = flat_trace recs @ tail"
    and "position f = offset_of recs j + 4"
    and "j < length recs"
  shows "read (length (recs ! j)) f = (recs ! j, f\<lparr>position := offset_of recs (Suc j)\<rparr>)"
proof -
  have "drop (offset_of recs j + 4) (flat_trace recs @ tail) =
        drop 4 (drop (offset_of recs j) (flat_trace recs @ tail))"
    by (simp only: drop_drop add.commute)
  also have "\<dots> = recs ! j @ flat_trace (drop (Suc j) recs) @ tail"
    using assms(3) by (simp only: drop_boundary) simp
  finally have "drop (position f) (content f) = recs ! j @ flat_trace (drop (Suc j) recs) @ tail"
    using assms by simp
  then show ?thesis
    using assms by (simp add: read_def offset_of_Suc Let_def)
qed

lemma read_at_end:
  assumes "content f = flat_trace recs @ tail"
    and "position f = offset_of recs (length recs)"
  shows "read n f = (take n tail, f\<lparr>position := offset_of recs (length recs) + min (length tail) n\<rparr>)"
proof -
  have "drop (position f) (content f) = tail"
    using assms drop_end [of recs tail] by simp
  then show ?thesis
    using assms(2) by (simp add: read_def Let_def)
qed

lemma read_next_record:
  assumes c: "content (file_obj s) = flat_trace recs @ tail"
    and p: "position (file_obj s) = offset_of recs j"
    and j: "j < length recs"
    and l: "length (recs ! j) < 2 ^ 32"
    and m: "parse (recs ! j) = Some m"
    and ne: "message_offsets s \<noteq> []"
  shows "read_next parse False s =
    Inr (RMessage m,
      if offset_of recs j = last (message_offsets s)
      then s\<lparr>file_obj := (file_obj s)\<lparr>position := offset_of recs (Suc j)\<rparr>,
             current_index := current_index s + 1,
             message_cache :=
               map_option (\<lambda>c. c(int (length (message_offsets s)) - 1 \<mapsto> m)) (message_cache s),
             message_offsets := message_offsets s @ [offset_of recs (Suc j)]\<rparr>
      else s\<lparr>file_obj := (file_obj s)\<lparr>position := offset_of recs (Suc j)\<rparr>,
             current_index := current_index s + 1\<rparr>)"
proof -
  let ?f1 = "(file_obj s)\<lparr>position := offset_of recs j + 4\<rparr>"
  have h: "read 4 (file_obj s) = (pack_L (length (recs ! j)), ?f1)"
    using read_header [OF c p j] by simp
  have d: "read (length (recs ! j)) ?f1 =
           (recs ! j, ?f1\<lparr>position := offset_of recs (Suc j)\<rparr>)"
    by (rule read_payload) (use c j in simp_all)
  show ?thesis
    using p l m ne
    by (simp add: read_next_def h d unpack_pack tell_def header_length_def nth_py_last Let_def)
qed

lemma read_next_skip:
  assumes c: "content (file_obj s) = flat_trace recs @ tail"
    and p: "position (file_obj s) = offset_of recs j"
    and j: "j < length recs"
    and l: "length (recs ! j) < 2 ^ 32"
    and ne: "message_offsets s \<noteq> []"
  shows "read_next parse True s =
    Inr (ROffset (offset_of recs (Suc j)),
      if offset_of recs j = last (message_offsets s)
      then s\<lparr>file_obj := (file_obj s)\<lparr>position := offset_of recs (Suc j)\<rparr>,
             current_index := current_index s + 1,
             message_offsets := message_offsets s @ [offset_of recs (Suc j)]\<rparr>
      else s\<lparr>file_obj := (file_obj s)\<lparr>position := offset_of recs (Suc j)\<rparr>,
             current_index := current_index s + 1\<rparr>)"
proof -
  let ?f1 = "(file_obj s)\<lparr>position := offset_of recs j + 4\<rparr>"
  have h: "read 4 (file_obj s) = (pack_L (length (recs ! j)), ?f1)"
    using read_header [OF c p j] by simp
  have "offset_of recs (Suc j) \<le> offset_of recs (length recs)"
    using j by (intro offset_of_mono) auto
  then have le: "offset_of recs j + 4 + length (recs ! j) \<le> length (flat_trace recs) + length tail"
    using j by (simp add: offset_of_Suc offset_of_length)
  have k: "seek_cur (length (recs ! j)) ?f1 = (file_obj s)\<lparr>position := offset_of recs (Suc j)\<rparr>"
    using c j le by (simp add: seek_cur_def seek_set_def offset_of_Suc)
  show ?thesis
  proof (cases "offset_of recs j = last (message_offsets s)")
    case True
    then have e: "last (message_offsets s) = offset_of recs j" by simp
    show ?thesis
      using p l ne
      by (simp add: read_next_def h k unpack_pack tell_def header_length_def nth_py_last Let_def
          offset_of_Suc [OF j] e)
  next
    case False
    then show ?thesis
      using p l ne
      by (simp add: read_next_def h k unpack_pack tell_def header_length_def nth_py_last Let_def
          offset_of_Suc [OF j])
  qed
qed

section \<open>Readers consistent with their trace\<close>

lemma consistent_table:
  "consistent parse recs s \<Longrightarrow>
     map (offset_of recs) [0..<length (message_offsets s)] = message_offsets s \<and>
     length (message_offsets s) \<le> length recs + 1 \<and>
     content (file_obj s) = flat_trace recs \<and>
     (read_complete s \<longrightarrow> length recs \<le> length (message_offsets s)) \<and>
     (\<not> read_complete s \<longrightarrow> message_offsets s \<noteq> [])"
  unfolding consistent_def by (auto split: if_splits)

lemma consistent_nth:
  assumes "consistent parse recs s" and "j < length (message_offsets s)"
  shows "message_offsets s ! j = offset_of recs j"
proof -
  have "map (offset_of recs) [0..<length (message_offsets s)] ! j = message_offsets s ! j"
    using consistent_table [OF assms(1)] by simp
  moreover have "map (offset_of recs) [0..<length (message_offsets s)] ! j = offset_of recs j"
    using assms(2) by simp
  ultimately show ?thesis by simp
qed

lemma consistent_last:
  assumes "consistent parse recs s" and "message_offsets s \<noteq> []"
  shows "last (message_offsets s) = offset_of recs (length (message_offsets s) - 1)"
proof -
  have "last (message_offsets s) = message_offsets s ! (length (message_offsets s) - 1)"
    using assms(2) by (rule last_conv_nth)
  then show ?thesis
    using consistent_nth [OF assms(1), of "length (message_offsets s) - 1"] assms(2) by simp
qed

lemma consistent_cached:
  assumes "consistent parse recs s" and "cached s i = Some m"
  shows "0 \<le> i \<and> nat i < length recs \<and> parse (recs ! nat i) = Some m \<and>
     (nat i + 1 < length (message_offsets s) \<or>
      (nat i + 1 = length (message_offsets s) \<and> length (message_offsets s) = length recs \<and>
       read_complete s))"
proof -
  from assms(2) obtain c where c: "message_cache s = Some c" "c i = Some m"
    by (cases "message_cache s") (simp_all add: cached_def)
  from assms(1) c(1) have
    "cache_entries_ok parse recs (length (message_offsets s)) (read_complete s) c"
    by (simp add: consistent_def)
  with c(2) show ?thesis unfolding cache_entries_ok_def by blast
qed

lemma valid_records_nth:
  "valid_records parse recs \<Longrightarrow> j < length recs \<Longrightarrow>
     length (recs ! j) < 2 ^ 32 \<and> (\<exists>m. parse (recs ! j) = Some m)"
  by (auto simp: valid_records_def list_all_length)

lemma consistent_fields_cong:
  assumes "message_offsets s' = message_offsets s" and "message_cache s' = message_cache s"
    and "read_complete s' = read_complete s"
    and "content (file_obj s') = content (file_obj s)"
  shows "consistent parse recs s' = consistent parse recs s"
  by (simp only: consistent_def assms)

lemma cache_entries_ok_grow:
  "cache_entries_ok parse recs k complete c \<Longrightarrow> cache_entries_ok parse recs (Suc k) complete' c"
  unfolding cache_entries_ok_def by (metis Suc_eq_plus1 less_Suc_eq)

lemma cache_entries_ok_update:
  assumes "cache_entries_ok parse recs (Suc k) complete c"
    and "0 < k" and "k \<le> length recs" and "parse (recs ! (k - 1)) = Some m"
  shows "cache_entries_ok parse recs (Suc k) complete (c(int k - 1 \<mapsto> m))"
  unfolding cache_entries_ok_def
proof (intro allI impI)
  fix i m'
  assume h: "(c(int k - 1 \<mapsto> m)) i = Some m'"
  show "0 \<le> i \<and> nat i < length recs \<and> parse (recs ! nat i) = Some m' \<and>
        (nat i + 1 < Suc k \<or> nat i + 1 = Suc k \<and> Suc k = length recs \<and> complete)"
  proof (cases "i = int k - 1")
    case True
    then have "nat i = k - 1" by simp
    with True h assms(2-4) show ?thesis by auto
  next
    case False
    with h have "c i = Some m'" by simp
    with assms(1) show ?thesis unfolding cache_entries_ok_def by blast
  qed
qed

lemma cache_entries_ok_pop:
  assumes "cache_entries_ok parse recs (Suc (length recs)) complete c"
  shows "cache_entries_ok parse recs (length recs) True c"
  unfolding cache_entries_ok_def
proof (intro allI impI)
  fix i m
  assume "c i = Some m"
  with assms have "0 \<le> i \<and> nat i < length recs \<and> parse (recs ! nat i) = Some m"
    unfolding cache_entries_ok_def by blast
  then show "0 \<le> i \<and> nat i < length recs \<and> parse (recs ! nat i) = Some m \<and>
        (nat i + 1 < length recs \<or> nat i + 1 = length recs \<and> length recs = length recs \<and> True)"
    by auto
qed

lemma seek_set_content [simp]: "content (seek_set off f) = content f"
  by (simp add: seek_set_def)

lemma seek_set_within:
  "off \<le> length (content f) \<Longrightarrow> seek_set off f = f\<lparr>position := off\<rparr>"
  by (simp add: seek_set_def)

lemma offset_of_le_length: "j \<le> length recs \<Longrightarrow> offset_of recs j \<le> length (flat_trace recs)"
  using offset_of_mono [of j "length recs" recs] by (simp add: offset_of_length)

lemma read_next_at_end:
  assumes "content (file_obj s) = flat_trace recs"
    and "position (file_obj s) = offset_of recs (length recs)"
  shows "read_next parse skip s = end_of_stream (offset_of recs (length recs)) s"
proof -
  have "read 4 (file_obj s) = ([], file_obj s)"
    using assms by (simp add: read_def offset_of_length)
  then show ?thesis
    using assms(2) by (simp add: read_next_def header_length_def tell_def)
qed

lemma consistent_append_skip:
  assumes c: "consistent parse recs s"
    and k: "message_offsets s \<noteq> []" "length (message_offsets s) \<le> length recs"
    and f: "content f' = content (file_obj s)"
  shows "consistent parse recs
           (s\<lparr>file_obj := f', current_index := ci,
              message_offsets := message_offsets s @ [offset_of recs (length (message_offsets s))]\<rparr>)"
proof -
  note t = consistent_table [OF c]
  have cache: "case message_cache s of None \<Rightarrow> True
        | Some c \<Rightarrow> cache_entries_ok parse recs (Suc (length (message_offsets s))) (read_complete s) c"
    using c by (auto simp: consistent_def intro: cache_entries_ok_grow split: option.splits)
  show ?thesis
    using t k f cache by (simp add: consistent_def split: option.splits)
qed

lemma consistent_append_read:
  assumes c: "consistent parse recs s"
    and k: "message_offsets s \<noteq> []" "length (message_offsets s) \<le> length recs"
    and f: "content f' = content (file_obj s)"
    and m: "parse (recs ! (length (message_offsets s) - 1)) = Some m"
  shows "consistent parse recs
           (s\<lparr>file_obj := f', current_index := ci,
              message_cache :=
                map_option (\<lambda>c. c(int (length (message_offsets s)) - 1 \<mapsto> m)) (message_cache s),
              message_offsets := message_offsets s @ [offset_of recs (length (message_offsets s))]\<rparr>)"
proof -
  note t = consistent_table [OF c]
  have pos: "0 < length (message_offsets s)" using k(1) by simp
  have cache: "case message_cache s of None \<Rightarrow> True
        | Some c \<Rightarrow> cache_entries_ok parse recs (Suc (length (message_offsets s))) (read_complete s)
                     (c(int (length (message_offsets s)) - 1 \<mapsto> m))"
  proof (cases "message_cache s")
    case None then show ?thesis by simp
  next
    case (Some c0)
    with c have "cache_entries_ok parse recs (length (message_offsets s)) (read_complete s) c0"
      by (simp add: consistent_def)
    then have "cache_entries_ok parse recs (Suc (length (message_offsets s))) (read_complete s) c0"
      by (rule cache_entries_ok_grow)
    from cache_entries_ok_update [OF this pos k(2) m] Some show ?thesis by simp
  qed
  show ?thesis
    using t k f cache by (simp add: consistent_def split: option.splits)
qed

lemma end_of_stream_consistent:
  assumes c: "consistent parse recs s"
    and e: "end_of_stream (offset_of recs (length recs)) s = Inr (r, s')"
  shows "consistent parse recs s' \<and> r = RNone"
proof -
  note t = consistent_table [OF c]
  from e have ne: "message_offsets s \<noteq> []"
    by (auto simp: end_of_stream_def nth_py_last split: if_splits)
  let ?k = "length (message_offsets s)"
  have l: "last (message_offsets s) = offset_of recs (?k - 1)"
    by (rule consistent_last [OF c ne])
  show ?thesis
  proof (cases "offset_of recs (length recs) = last (message_offsets s)")
    case True
    moreover have "?k - 1 \<le> length recs" using t by linarith
    ultimately have "length recs = ?k - 1"
      using l offset_of_inj [of "length recs" recs "?k - 1"] by simp
    then have k: "?k = Suc (length recs)" using ne by (cases "message_offsets s") auto
    have s': "s' = s\<lparr>message_offsets := butlast (message_offsets s), read_complete := True,
                     file_obj := seek_set (offset_of recs (length recs)) (file_obj s)\<rparr>"
      and r: "r = RNone"
      using e ne True by (auto simp: end_of_stream_def nth_py_last Let_def)
    have "butlast (map (offset_of recs) [0..<Suc (length recs)]) = butlast (message_offsets s)"
      using t k by simp
    then have tab: "map (offset_of recs) [0..<length recs] = butlast (message_offsets s)"
      by simp
    have cache: "case message_cache s of None \<Rightarrow> True
        | Some c \<Rightarrow> cache_entries_ok parse recs (length recs) True c"
      using c k by (auto simp: consistent_def intro: cache_entries_ok_pop split: option.splits)
    show ?thesis
      using t k tab cache r by (simp add: s' consistent_def split: option.splits)
  next
    case False
    then have s': "s' = s\<lparr>file_obj := seek_set (offset_of recs (length recs)) (file_obj s)\<rparr>"
      and r: "r = RNone"
      using e ne by (auto simp: end_of_stream_def nth_py_last Let_def)
    have "consistent parse recs s' = consistent parse recs s"
      by (rule consistent_fields_cong) (simp_all add: s')
    with c r show ?thesis by simp
  qed
qed

section \<open>What a single read changes\<close>

lemma seek_index_fields:
  "seek_index index s = Inr s1 \<Longrightarrow>
     message_offsets s1 = message_offsets s \<and> message_cache s1 = message_cache s \<and>
     read_complete s1 = read_complete s \<and> content (file_obj s1) = content (file_obj s)"
  by (auto simp: seek_index_def seek_set_def split: option.splits sum.splits)

lemma from_cache_fields:
  "from_cache message skip s = Inr (r, s') \<Longrightarrow>
     message_offsets s' = message_offsets s \<and> message_cache s' = message_cache s \<and>
     read_complete s' = read_complete s \<and> content (file_obj s') = content (file_obj s)"
  by (auto simp: from_cache_def Let_def seek_set_def seek_end_def split: if_splits sum.splits)

lemma end_of_stream_frame:
  "end_of_stream start s = Inr (r, s') \<Longrightarrow> nth_py (message_offsets s) (- 1) \<noteq> Inr start \<Longrightarrow>
     message_offsets s' = message_offsets s \<and> message_cache s' = message_cache s"
  by (auto simp: end_of_stream_def Let_def split: sum.splits if_splits)

lemma read_next_frame:
  assumes "read_next parse skip s = Inr (r, s')"
    and "nth_py (message_offsets s) (- 1) \<noteq> Inr (tell (file_obj s))"
  shows "message_offsets s' = message_offsets s \<and> message_cache s' = message_cache s"
  using assms
  by (auto simp: read_next_def Let_def end_of_stream_def
      split: prod.splits if_splits sum.splits option.splits)

text \<open>
  Claim C5. A \<open>retrieve_message\<close> call that returns and whose read does not start at
  the last entry of the offset table (\<open>start == self.message_offsets[-1]\<close> is false, or
  the message comes from the cache) leaves the offset table and the message cache as
  they were.
\<close>

theorem retrieve_message_frame:
  assumes "retrieve_message parse index skip s = Inr (r, s')"
    and "read_start index s = Inr start"
    and "nth_py (message_offsets s) (- 1) \<noteq> Inr start"
  shows "message_offsets s' = message_offsets s \<and> message_cache s' = message_cache s"
proof -
  from assms(2) obtain s1 where s1: "seek_index index s = Inr s1" "start = tell (file_obj s1)"
    by (auto simp: read_start_def split: sum.splits)
  note f = seek_index_fields [OF s1(1)]
  show ?thesis
  proof (cases "cached s1 (current_index s1)")
    case None
    with assms(1) s1 have "read_next parse skip s1 = Inr (r, s')"
      by (simp add: retrieve_message_def)
    from read_next_frame [OF this] assms(3) s1(2) f show ?thesis by simp
  next
    case (Some message)
    with assms(1) s1 have "from_cache message skip s1 = Inr (r, s')"
      by (simp add: retrieve_message_def)
    from from_cache_fields [OF this] f show ?thesis by simp
  qed
qed

text \<open>The claim at work: a reader with the offset table \<open>[0]\<close>, positioned at the second
  record (offset 5) of a two-record trace, reads that record and keeps table and cache.\<close>

theorem retrieve_message_frame_witness:
  "retrieve_message Some None False
     \<lparr>file_obj = \<lparr>content = [1, 0, 0, 0, 7, 1, 0, 0, 0, 9], position = 5, clamped = False\<rparr>,
      current_index = 1, message_offsets = [0], read_complete = False,
      message_cache = Some Map.empty\<rparr> =
   Inr (RMessage [9],
     \<lparr>file_obj = \<lparr>content = [1, 0, 0, 0, 7, 1, 0, 0, 0, 9], position = 10, clamped = False\<rparr>,
      current_index = 2, message_offsets = [0], read_complete = False,
      message_cache = Some Map.empty\<rparr>) \<and>
   message_offsets
     \<lparr>file_obj = \<lparr>content = [1, 0, 0, 0, 7, 1, 0, 0, 0, 9], position = 10, clamped = False\<rparr>,
      current_index = 2, message_offsets = [0], read_complete = False,
      message_cache = Some (Map.empty :: int \<rightharpoonup> byte list)\<rparr> = [0]"
proof -
  let ?s = "\<lparr>file_obj = \<lparr>content = [1, 0, 0, 0, 7, 1, 0, 0, 0, 9], position = 5, clamped = False\<rparr>,
      current_index = 1, message_offsets = [0], read_complete = False,
      message_cache = Some (Map.empty :: int \<rightharpoonup> byte list)\<rparr>"
  let ?s' = "\<lparr>file_obj = \<lparr>content = [1, 0, 0, 0, 7, 1, 0, 0, 0, 9], position = 10, clamped = False\<rparr>,
      current_index = 2, message_offsets = [0], read_complete = False,
      message_cache = Some (Map.empty :: int \<rightharpoonup> byte list)\<rparr>"
  have a: "retrieve_message Some None False ?s = Inr (RMessage [9], ?s')"
    by (simp add: retrieve_message_def seek_index_def cached_def read_next_def read_def tell_def
        header_length_def unpack_L_def nth_py_def Let_def)
  have b: "read_start None ?s = Inr 5"
    by (simp add: read_start_def seek_index_def tell_def)
  have c: "nth_py (message_offsets ?s) (- 1) \<noteq> Inr 5"
    by (simp add: nth_py_def)
  from retrieve_message_frame [OF a b c] a show ?thesis by simp
qed

section \<open>Every read keeps the reader consistent\<close>

lemma read_next_frame_all:
  assumes "read_next parse skip s = Inr (r, s')"
    and "nth_py (message_offsets s) (- 1) \<noteq> Inr (tell (file_obj s))"
  shows "message_offsets s' = message_offsets s \<and> message_cache s' = message_cache s \<and>
         read_complete s' = read_complete s \<and> content (file_obj s') = content (file_obj s)"
  using assms
  by (auto simp: read_next_def Let_def end_of_stream_def read_def seek_cur_def
      split: prod.splits if_splits sum.splits option.splits)

lemma retrieve_message_consistent:
  assumes c: "consistent parse recs s"
    and v: "valid_records parse recs"
    and r: "retrieve_message parse index skip s = Inr (r, s')"
  shows "consistent parse recs s'"
proof -
  from r obtain s1 where s1: "seek_index index s = Inr s1"
    by (auto simp: retrieve_message_def split: sum.splits)
  note f1 = seek_index_fields [OF s1]
  have c1: "consistent parse recs s1"
    using c consistent_fields_cong [of s1 s parse recs] f1 by simp
  note t = consistent_table [OF c1]
  let ?k = "length (message_offsets s1)"
  show ?thesis
  proof (cases "cached s1 (current_index s1)")
    case (Some m)
    with r s1 have "from_cache m skip s1 = Inr (r, s')"
      by (simp add: retrieve_message_def)
    from from_cache_fields [OF this] c1 consistent_fields_cong [of s' s1 parse recs]
    show ?thesis by simp
  next
    case None
    with r s1 have rn: "read_next parse skip s1 = Inr (r, s')"
      by (simp add: retrieve_message_def)
    show ?thesis
    proof (cases "nth_py (message_offsets s1) (- 1) = Inr (tell (file_obj s1))")
      case False
      from read_next_frame_all [OF rn False] c1 consistent_fields_cong [of s' s1 parse recs]
      show ?thesis by simp
    next
      case True
      then have ne: "message_offsets s1 \<noteq> []"
        and l: "last (message_offsets s1) = position (file_obj s1)"
        by (auto simp: nth_py_last tell_def split: if_splits)
      have pos: "position (file_obj s1) = offset_of recs (?k - 1)"
        using consistent_last [OF c1 ne] l by simp
      have kle: "?k - 1 \<le> length recs" using t by linarith
      have sk: "Suc (?k - Suc 0) = ?k" using ne by (cases "message_offsets s1") auto
      have cont: "content (file_obj s1) = flat_trace recs @ []" using t by simp
      show ?thesis
      proof (cases "?k - 1 < length recs")
        case less: True
        from valid_records_nth [OF v less] obtain m where
          len: "length (recs ! (?k - 1)) < 2 ^ 32" and m: "parse (recs ! (?k - 1)) = Some m"
          by blast
        have kn: "?k \<le> length recs" using less sk by simp
        show ?thesis
        proof (cases skip)
          case True
          from read_next_skip [OF cont pos less len ne] rn True pos l
          have "s' = s1\<lparr>file_obj := (file_obj s1)\<lparr>position := offset_of recs ?k\<rparr>,
                      current_index := current_index s1 + 1,
                      message_offsets := message_offsets s1 @ [offset_of recs ?k]\<rparr>"
            by (simp add: sk)
          then show ?thesis
            using consistent_append_skip [OF c1 ne kn, of "(file_obj s1)\<lparr>position := offset_of recs ?k\<rparr>"]
            by simp
        next
          case False
          from read_next_record [where parse = parse and m = m, OF cont pos less len m ne]
            rn False pos l
          have "s' = s1\<lparr>file_obj := (file_obj s1)\<lparr>position := offset_of recs ?k\<rparr>,
                      current_index := current_index s1 + 1,
                      message_cache :=
                        map_option (\<lambda>c. c(int ?k - 1 \<mapsto> m)) (message_cache s1),
                      message_offsets := message_offsets s1 @ [offset_of recs ?k]\<rparr>"
            by (simp add: sk)
          then show ?thesis
            using consistent_append_read [OF c1 ne kn _ m, of "(file_obj s1)\<lparr>position := offset_of recs ?k\<rparr>"]
            by simp
        qed
      next
        case False
        with kle have e: "?k - 1 = length recs" by simp
        have "read_next parse skip s1 = end_of_stream (offset_of recs (length recs)) s1"
          using read_next_at_end [of s1 recs parse skip] t pos e by simp
        with rn have "end_of_stream (offset_of recs (length recs)) s1 = Inr (r, s')" by simp
        from end_of_stream_consistent [OF c1 this] show ?thesis by simp
      qed
    qed
  qed
qed

section \<open>Reading a valid trace in sequence\<close>

lemma retrieve_message_after_seek:
  "seek_index index s = Inr s1 \<Longrightarrow>
     retrieve_message parse index skip s = retrieve_message parse None skip s1"
  by (simp add: retrieve_message_def seek_index_def)

lemma retrieve_message_next:
  assumes c: "consistent parse recs s"
    and v: "valid_records parse recs"
    and pos: "position (file_obj s) = offset_of recs j"
    and ci: "current_index s = int j"
    and j: "j < length recs"
    and ne: "message_offsets s \<noteq> []"
  shows "\<exists>s'. retrieve_message parse None False s = Inr (RMessage (the (parse (recs ! j))), s') \<and>
              position (file_obj s') = offset_of recs (Suc j) \<and>
              current_index s' = int (Suc j) \<and>
              message_offsets s' \<noteq> [] \<and>
              consistent parse recs s'"
proof -
  note t = consistent_table [OF c]
  let ?k = "length (message_offsets s)"
  from valid_records_nth [OF v j] obtain m where
    len: "length (recs ! j) < 2 ^ 32" and m: "parse (recs ! j) = Some m"
    by blast
  have ex: "\<exists>s'. retrieve_message parse None False s = Inr (RMessage m, s') \<and>
              position (file_obj s') = offset_of recs (Suc j) \<and>
              current_index s' = int (Suc j) \<and>
              message_offsets s' \<noteq> []"
  proof (cases "cached s (int j)")
    case None
    have cont: "content (file_obj s) = flat_trace recs @ []" using t by simp
    from read_next_record [where parse = parse and m = m, OF cont pos j len m ne]
    show ?thesis
      using None ci ne by (simp add: retrieve_message_def seek_index_def)
  next
    case (Some m')
    from consistent_cached [OF c Some] m have mm: "m' = m"
      and d: "j + 1 < ?k \<or> (j + 1 = ?k \<and> ?k = length recs)"
      by auto
    show ?thesis
    proof (cases "j + 1 = ?k")
      case True
      with d have "Suc j = length recs" by simp
      then have "offset_of recs (Suc j) = length (content (file_obj s))"
        using t by (simp add: offset_of_length)
      then show ?thesis
        using Some mm ci ne True
        by (simp add: retrieve_message_def seek_index_def from_cache_def Let_def seek_end_def)
    next
      case False
      with d have lt: "Suc j < ?k" by simp
      have n: "nth_py (message_offsets s) (int j + 1) = Inr (offset_of recs (Suc j))"
        using nth_py_nat [of "message_offsets s" "Suc j"] lt consistent_nth [OF c lt]
        by (simp add: add.commute)
      have "Suc j \<le> length recs" using j by simp
      then have "offset_of recs (Suc j) \<le> length (content (file_obj s))"
        using t offset_of_le_length [of "Suc j" recs] by simp
      then have sk: "seek_set (offset_of recs (Suc j)) (file_obj s) =
                 (file_obj s)\<lparr>position := offset_of recs (Suc j)\<rparr>"
        by (rule seek_set_within)
      show ?thesis
        using Some mm ci ne False lt n sk
        by (simp add: retrieve_message_def seek_index_def from_cache_def Let_def)
    qed
  qed
  then obtain s' where s': "retrieve_message parse None False s = Inr (RMessage m, s')"
    "position (file_obj s') = offset_of recs (Suc j)" "current_index s' = int (Suc j)"
    "message_offsets s' \<noteq> []"
    by blast
  from retrieve_message_consistent [OF c v s'(1)] s' m show ?thesis by auto
qed

lemma retrieve_message_at_end:
  assumes c: "consistent parse recs s"
    and pos: "position (file_obj s) = offset_of recs (length recs)"
    and ci: "current_index s = int (length recs)"
    and ne: "message_offsets s \<noteq> []"
  shows "\<exists>s'. retrieve_message parse None skip s = Inr (RNone, s') \<and> consistent parse recs s'"
proof -
  note t = consistent_table [OF c]
  have "cached s (int (length recs)) = None"
  proof (cases "cached s (int (length recs))")
    case None then show ?thesis .
  next
    case (Some m)
    from consistent_cached [OF c Some] show ?thesis by simp
  qed
  then have "retrieve_message parse None skip s = end_of_stream (offset_of recs (length recs)) s"
    using read_next_at_end [of s recs parse skip] t pos ci
    by (simp add: retrieve_message_def seek_index_def)
  moreover obtain r s' where "end_of_stream (offset_of recs (length recs)) s = Inr (r, s')"
    using ne by (auto simp: end_of_stream_def nth_py_last Let_def)
  ultimately show ?thesis
    using end_of_stream_consistent [OF c] by auto
qed

lemma iterate_from:
  assumes v: "valid_records parse recs"
  shows "consistent parse recs s \<Longrightarrow> position (file_obj s) = offset_of recs j \<Longrightarrow>
     current_index s = int j \<Longrightarrow> j \<le> length recs \<Longrightarrow> message_offsets s \<noteq> [] \<Longrightarrow>
     \<exists>s'. iterate parse s =
            Some (map (\<lambda>r. RMessage (the (parse r))) (drop j recs), Inr s') \<and>
          consistent parse recs s'"
proof (induction "length recs - j" arbitrary: j s)
  case 0
  then have j: "j = length recs" by simp
  from retrieve_message_at_end [of parse recs s False] 0 j obtain s' where
    "retrieve_message parse None False s = Inr (RNone, s')" "consistent parse recs s'"
    by auto
  then show ?case
    using j by (subst iterate.simps) simp
next
  case (Suc d)
  then have j: "j < length recs" by simp
  from retrieve_message_next [OF Suc.prems(1) v Suc.prems(2,3) j Suc.prems(5)] obtain s1 where
    s1: "retrieve_message parse None False s = Inr (RMessage (the (parse (recs ! j))), s1)"
      "position (file_obj s1) = offset_of recs (Suc j)" "current_index s1 = int (Suc j)"
      "message_offsets s1 \<noteq> []" "consistent parse recs s1"
    by blast
  have "d = length recs - Suc j" using Suc.hyps(2) by simp
  from Suc.hyps(1) [OF this s1(5) s1(2) s1(3) _ s1(4)] j obtain s' where
    s': "iterate parse s1 =
           Some (map (\<lambda>r. RMessage (the (parse r))) (drop (Suc j) recs), Inr s')"
      "consistent parse recs s'"
    by auto
  have "drop j recs = recs ! j # drop (Suc j) recs"
    using j by (simp add: Cons_nth_drop_Suc)
  then show ?case
    using s1(1) s' by (subst iterate.simps) simp
qed

section \<open>Extending the offset table\<close>

lemma retrieve_message_skip_next:
  assumes c: "consistent parse recs s"
    and v: "valid_records parse recs"
    and rc: "\<not> read_complete s"
    and pos: "position (file_obj s) = offset_of recs (length (message_offsets s) - 1)"
    and ci: "current_index s = int (length (message_offsets s)) - 1"
    and k: "length (message_offsets s) \<le> length recs"
  shows "\<exists>s'. retrieve_message parse None True s =
                Inr (ROffset (offset_of recs (length (message_offsets s))), s') \<and>
              consistent parse recs s' \<and> \<not> read_complete s' \<and>
              length (message_offsets s') = Suc (length (message_offsets s)) \<and>
              position (file_obj s') = offset_of recs (length (message_offsets s') - 1) \<and>
              current_index s' = int (length (message_offsets s')) - 1 \<and>
              message_cache s' = message_cache s"
proof -
  note t = consistent_table [OF c]
  let ?k = "length (message_offsets s)"
  have ne: "message_offsets s \<noteq> []" using t rc by simp
  then have sk: "Suc (?k - Suc 0) = ?k" by (cases "message_offsets s") auto
  then have less: "?k - 1 < length recs" using k by simp
  from valid_records_nth [OF v less] have len: "length (recs ! (?k - 1)) < 2 ^ 32" by simp
  have nc: "cached s (int ?k - 1) = None"
  proof (cases "cached s (int ?k - 1)")
    case None then show ?thesis .
  next
    case (Some m)
    have "nat (int ?k - 1) + 1 = ?k" using sk by simp
    with consistent_cached [OF c Some] rc show ?thesis by simp
  qed
  have cont: "content (file_obj s) = flat_trace recs @ []" using t by simp
  have l: "last (message_offsets s) = offset_of recs (?k - 1)"
    using consistent_last [OF c ne] .
  let ?s' = "s\<lparr>file_obj := (file_obj s)\<lparr>position := offset_of recs ?k\<rparr>,
               current_index := current_index s + 1,
               message_offsets := message_offsets s @ [offset_of recs ?k]\<rparr>"
  have r: "retrieve_message parse None True s = Inr (ROffset (offset_of recs ?k), ?s')"
    using read_next_skip [where parse = parse, OF cont pos less len ne] nc ci l
    by (simp add: retrieve_message_def seek_index_def sk)
  have "consistent parse recs ?s'"
    using retrieve_message_consistent [OF c v r] .
  then show ?thesis
    using r rc ci by simp
qed

lemma retrieve_offsets_loop_limit:
  assumes v: "valid_records parse recs" and i: "0 < i" "i \<le> length recs"
  shows "consistent parse recs s \<Longrightarrow> \<not> read_complete s \<Longrightarrow>
     position (file_obj s) = offset_of recs (length (message_offsets s) - 1) \<Longrightarrow>
     current_index s = int (length (message_offsets s)) - 1 \<Longrightarrow>
     length (message_offsets s) \<le> Suc i \<Longrightarrow>
     \<exists>s'. retrieve_offsets_loop parse (Some (int i)) s = Some (Inr s') \<and>
          consistent parse recs s' \<and> \<not> read_complete s' \<and>
          length (message_offsets s') = Suc i \<and>
          message_cache s' = message_cache s"
proof (induction "Suc i - length (message_offsets s)" arbitrary: s)
  case 0
  then have "length (message_offsets s) = Suc i" by simp
  then have "\<not> within_limit (Some (int i)) s"
    using i by (simp add: within_limit_def)
  then have "retrieve_offsets_loop parse (Some (int i)) s = Some (Inr s)"
    by (subst retrieve_offsets_loop.simps) simp
  with 0 \<open>length (message_offsets s) = Suc i\<close> show ?case by simp
next
  case (Suc d)
  then have k: "length (message_offsets s) \<le> i" by simp
  then have "length (message_offsets s) \<le> length recs" using i by simp
  from retrieve_message_skip_next [OF Suc.prems(1) v Suc.prems(2,3,4) this] obtain r s1 where
    s1: "retrieve_message parse None True s = Inr (r, s1)"
      "consistent parse recs s1" "\<not> read_complete s1"
      "length (message_offsets s1) = Suc (length (message_offsets s))"
      "position (file_obj s1) = offset_of recs (length (message_offsets s1) - 1)"
      "current_index s1 = int (length (message_offsets s1)) - 1"
      "message_cache s1 = message_cache s"
    by blast
  have "d = Suc i - length (message_offsets s1)" using Suc.hyps(2) s1(4) by simp
  from Suc.hyps(1) [OF this s1(2,3,5,6)] s1(4) k obtain s' where
    s': "retrieve_offsets_loop parse (Some (int i)) s1 = Some (Inr s')"
      "consistent parse recs s'" "\<not> read_complete s'" "length (message_offsets s') = Suc i"
      "message_cache s' = message_cache s1"
    by auto
  have "within_limit (Some (int i)) s"
    using k by (simp add: within_limit_def)
  then have "retrieve_offsets_loop parse (Some (int i)) s = Some (Inr s')"
    using Suc.prems(2) s1(1) s'(1) by (subst retrieve_offsets_loop.simps) simp
  with s' s1(7) show ?case by simp
qed

lemma retrieve_offsets_loop_all:
  assumes v: "valid_records parse recs"
  shows "consistent parse recs s \<Longrightarrow> \<not> read_complete s \<Longrightarrow>
     position (file_obj s) = offset_of recs (length (message_offsets s) - 1) \<Longrightarrow>
     current_index s = int (length (message_offsets s)) - 1 \<Longrightarrow>
     \<exists>s'. retrieve_offsets_loop parse None s = Some (Inr s') \<and>
          consistent parse recs s' \<and> read_complete s' \<and>
          length (message_offsets s') = length recs"
proof (induction "Suc (length recs) - length (message_offsets s)" arbitrary: s)
  case 0
  note t = consistent_table [OF "0.prems"(1)]
  from 0 t have k: "length (message_offsets s) = Suc (length recs)" by simp
  then have ne: "message_offsets s \<noteq> []" by auto
  from retrieve_message_at_end [OF "0.prems"(1) _ _ ne, of True] "0.prems"(3,4) k
  obtain s' where s': "retrieve_message parse None True s = Inr (RNone, s')"
    "consistent parse recs s'"
    by auto
  have l: "last (message_offsets s) = offset_of recs (length recs)"
    using consistent_last [OF "0.prems"(1) ne] k by simp
  have "cached s (current_index s) = None"
    using s'(1) by (auto simp: retrieve_message_def seek_index_def from_cache_def Let_def
        split: option.splits sum.splits if_splits)
  then have "end_of_stream (offset_of recs (length recs)) s = Inr (RNone, s')"
    using s'(1) read_next_at_end [of s recs parse True] t "0.prems"(3) k
    by (simp add: retrieve_message_def seek_index_def)
  then have f: "read_complete s'" "message_offsets s' = butlast (message_offsets s)"
    using l ne by (auto simp: end_of_stream_def nth_py_last Let_def)
  then have "retrieve_offsets_loop parse None s' = Some (Inr s')"
    by (subst retrieve_offsets_loop.simps) simp
  then have "retrieve_offsets_loop parse None s = Some (Inr s')"
    using "0.prems"(2) s'(1)
    by (subst retrieve_offsets_loop.simps) (simp add: within_limit_def)
  with s'(2) f k show ?case by simp
next
  case (Suc d)
  note t = consistent_table [OF Suc.prems(1)]
  from Suc.hyps(2) have k: "length (message_offsets s) \<le> length recs" by simp
  from retrieve_message_skip_next [OF Suc.prems(1) v Suc.prems(2,3,4) k] obtain r s1 where
    s1: "retrieve_message parse None True s = Inr (r, s1)"
      "consistent parse recs s1" "\<not> read_complete s1"
      "length (message_offsets s1) = Suc (length (message_offsets s))"
      "position (file_obj s1) = offset_of recs (length (message_offsets s1) - 1)"
      "current_index s1 = int (length (message_offsets s1)) - 1"
    by blast
  have "d = Suc (length recs) - length (message_offsets s1)" using Suc.hyps(2) s1(4) by simp
  from Suc.hyps(1) [OF this s1(2,3,5,6)] obtain s' where
    s': "retrieve_offsets_loop parse None s1 = Some (Inr s')"
      "consistent parse recs s'" "read_complete s'" "length (message_offsets s') = length recs"
    by auto
  have "retrieve_offsets_loop parse None s = Some (Inr s')"
    using Suc.prems(2) s1(1) s'(1)
    by (subst retrieve_offsets_loop.simps) (simp add: within_limit_def)
  with s' show ?case by simp
qed

section \<open>Index access on a valid trace\<close>

lemma open_single_consistent: "consistent parse recs (open_single lzma (flat_trace recs) cm)"
  by (simp add: consistent_def open_single_def cache_entries_ok_def)

lemma seek_last_synced:
  assumes c: "consistent parse recs s" and ne: "message_offsets s \<noteq> []"
  defines "s0 \<equiv> s\<lparr>file_obj := seek_set (last (message_offsets s)) (file_obj s),
                    current_index := int (length (message_offsets s)) - 1\<rparr>"
  shows "consistent parse recs s0 \<and>
         position (file_obj s0) = offset_of recs (length (message_offsets s0) - 1) \<and>
         current_index s0 = int (length (message_offsets s0)) - 1 \<and>
         message_offsets s0 = message_offsets s \<and> read_complete s0 = read_complete s \<and>
         message_cache s0 = message_cache s"
proof -
  note t = consistent_table [OF c]
  have l: "last (message_offsets s) = offset_of recs (length (message_offsets s) - 1)"
    using consistent_last [OF c ne] .
  have "length (message_offsets s) - 1 \<le> length recs" using t by linarith
  then have "offset_of recs (length (message_offsets s) - 1) \<le> length (content (file_obj s))"
    using t offset_of_le_length [of "length (message_offsets s) - 1" recs] by simp
  then have sk: "seek_set (last (message_offsets s)) (file_obj s) =
      (file_obj s)\<lparr>position := offset_of recs (length (message_offsets s) - 1)\<rparr>"
    using l seek_set_within [of "last (message_offsets s)" "file_obj s"] by simp
  have "consistent parse recs s0 = consistent parse recs s"
    by (rule consistent_fields_cong) (simp_all add: s0_def)
  with c sk show ?thesis by (simp add: s0_def)
qed

lemma retrieve_offsets_all:
  assumes v: "valid_records parse recs"
    and c: "consistent parse recs s"
    and rc: "\<not> read_complete s"
  shows "\<exists>s'. retrieve_offsets parse None s =
                Some (Inr (map (offset_of recs) [0..<length recs], s')) \<and>
              consistent parse recs s' \<and> read_complete s'"
proof -
  have ne: "message_offsets s \<noteq> []" using consistent_table [OF c] rc by simp
  let ?s0 = "s\<lparr>file_obj := seek_set (last (message_offsets s)) (file_obj s),
                current_index := int (length (message_offsets s)) - 1\<rparr>"
  note s0 = seek_last_synced [OF c ne]
  from retrieve_offsets_loop_all [OF v, of ?s0] s0 rc obtain s' where
    s': "retrieve_offsets_loop parse None ?s0 = Some (Inr s')" "consistent parse recs s'"
      "read_complete s'" "length (message_offsets s') = length recs"
    by auto
  have "message_offsets s' = map (offset_of recs) [0..<length recs]"
    using consistent_table [OF s'(2)] s'(4) by simp
  then show ?thesis
    using s' rc ne by (auto simp: retrieve_offsets_def nth_py_last)
qed

lemma retrieve_offsets_limit:
  assumes v: "valid_records parse recs"
    and c: "consistent parse recs s"
    and rc: "\<not> read_complete s"
    and i: "length (message_offsets s) \<le> i" "i \<le> length recs"
  shows "\<exists>tab s'. retrieve_offsets parse (Some (int i)) s = Some (Inr (tab, s')) \<and>
              consistent parse recs s' \<and> \<not> read_complete s' \<and>
              length (message_offsets s') = Suc i \<and> message_cache s' = message_cache s"
proof -
  have ne: "message_offsets s \<noteq> []" using consistent_table [OF c] rc by simp
  then have i0: "0 < i" using i(1) by (cases "message_offsets s") auto
  let ?s0 = "s\<lparr>file_obj := seek_set (last (message_offsets s)) (file_obj s),
                current_index := int (length (message_offsets s)) - 1\<rparr>"
  note s0 = seek_last_synced [OF c ne]
  from retrieve_offsets_loop_limit [OF v i0 i(2), of ?s0] s0 rc i(1) obtain s' where
    s': "retrieve_offsets_loop parse (Some (int i)) ?s0 = Some (Inr s')"
      "consistent parse recs s'" "\<not> read_complete s'" "length (message_offsets s') = Suc i"
      "message_cache s' = message_cache s"
    by auto
  then show ?thesis
    using rc ne by (auto simp: retrieve_offsets_def nth_py_last)
qed

lemma get_message_by_index_in_range:
  assumes v: "valid_records parse recs"
    and c: "consistent parse recs s"
    and i: "i < length recs"
  shows "\<exists>s'. get_message_by_index parse (int i) s =
                Some (Inr (RMessage (the (parse (recs ! i))), s')) \<and>
              consistent parse recs s'"
proof -
  from valid_records_nth [OF v i] obtain m where m: "parse (recs ! i) = Some m" by blast
  have known: "\<exists>s'. (case cached s1 (int i) of
                        Some message \<Rightarrow> Some (Inr (RMessage message, s1))
                      | None \<Rightarrow> Some (retrieve_message parse (Some (int i)) False s1)) =
                   Some (Inr (RMessage m, s')) \<and> consistent parse recs s'"
    if c1: "consistent parse recs s1" and k1: "i < length (message_offsets s1)" for s1
  proof (cases "cached s1 (int i)")
    case (Some m')
    from consistent_cached [OF c1 Some] m have "m' = m" by simp
    with Some c1 show ?thesis by simp
  next
    case None
    note t = consistent_table [OF c1]
    have n: "nth_py (message_offsets s1) (int i) = Inr (offset_of recs i)"
      using nth_py_nat [of "message_offsets s1" i] k1 consistent_nth [OF c1 k1] by simp
    have "offset_of recs i \<le> length (content (file_obj s1))"
      using t offset_of_le_length [of i recs] i by simp
    then have sk: "seek_set (offset_of recs i) (file_obj s1) =
                 (file_obj s1)\<lparr>position := offset_of recs i\<rparr>"
      by (rule seek_set_within)
    let ?s2 = "s1\<lparr>file_obj := (file_obj s1)\<lparr>position := offset_of recs i\<rparr>,
                  current_index := int i\<rparr>"
    have si: "seek_index (Some (int i)) s1 = Inr ?s2"
      using n sk by (simp add: seek_index_def)
    have "consistent parse recs ?s2 = consistent parse recs s1"
      by (rule consistent_fields_cong) simp_all
    with c1 have c2: "consistent parse recs ?s2" by simp
    have ne: "message_offsets ?s2 \<noteq> []" using k1 by auto
    from retrieve_message_next [OF c2 v _ _ i ne] obtain s' where
      "retrieve_message parse None False ?s2 = Inr (RMessage (the (parse (recs ! i))), s')"
      "consistent parse recs s'"
      by auto
    then show ?thesis
      using None m retrieve_message_after_seek [OF si, of parse False] by simp
  qed
  show ?thesis
  proof (cases "i < length (message_offsets s)")
    case True
    from known [OF c True] True m show ?thesis
      by (simp add: get_message_by_index_def)
  next
    case False
    then have ge: "length (message_offsets s) \<le> i" by simp
    have rc: "\<not> read_complete s"
      using consistent_table [OF c] ge i by auto
    from retrieve_offsets_limit [OF v c rc ge] i obtain tab s1 where
      s1: "retrieve_offsets parse (Some (int i)) s = Some (Inr (tab, s1))"
        "consistent parse recs s1" "length (message_offsets s1) = Suc i"
      by auto
    have "i < length (message_offsets s1)" using s1(3) by simp
    from known [OF s1(2) this] s1(1) ge m show ?thesis
      by (simp add: get_message_by_index_def)
  qed
qed

section \<open>The offset table, index access and restart\<close>

lemma offsets_strictly_increasing:
  "n \<le> length recs \<Longrightarrow> sorted_wrt (<) (map (offset_of recs) [0..<Suc n])"
  by (simp only: sorted_wrt_iff_nth_less) (auto intro: offset_of_strict simp del: upt_Suc)

text \<open>
  Claim C1, as amended. On a valid trace of \<open>n\<close> records, \<open>retrieve_offsets()\<close> without a
  limit, called on a reader that has not yet seen the end of the stream (a freshly
  opened reader is one), returns an offset table of length \<open>n\<close>, not \<open>n + 1\<close>: entry
  \<open>i\<close> is the offset at which record \<open>i\<close> starts, the entries are strictly increasing,
  and the entry for the end of the stream is removed when the end is reached.
\<close>

theorem retrieve_offsets_table:
  assumes "valid_records parse recs"
    and "consistent parse recs s"
    and "\<not> read_complete s"
  shows "\<exists>tab s'. retrieve_offsets parse None s = Some (Inr (tab, s')) \<and>
           length tab = length recs \<and>
           sorted_wrt (<) tab \<and>
           tab = map (offset_of recs) [0..<length recs]"
proof -
  from retrieve_offsets_all [OF assms] obtain s' where
    "retrieve_offsets parse None s = Some (Inr (map (offset_of recs) [0..<length recs], s'))"
    by blast
  moreover have "sorted_wrt (<) (map (offset_of recs) [0..<length recs])"
  proof (cases "length recs")
    case 0 then show ?thesis by simp
  next
    case (Suc n)
    then show ?thesis using offsets_strictly_increasing [of n recs] by simp
  qed
  ultimately show ?thesis by simp
qed

text \<open>The amended claim at a fresh reader on a trace of two records.\<close>

theorem retrieve_offsets_table_witness:
  "valid_records Some [[7], [9 :: byte]] \<and>
   \<not> read_complete (open_single False (flat_trace [[7], [9]]) False :: byte list single) \<and>
   (\<exists>tab s'. retrieve_offsets Some None (open_single False (flat_trace [[7], [9]]) False) =
        Some (Inr (tab, s' :: byte list single)) \<and>
      length tab = length [[7], [9 :: byte]] \<and> sorted_wrt (<) tab \<and>
      tab = map (offset_of [[7], [9]]) [0..<length [[7], [9 :: byte]]])"
proof -
  have v: "valid_records Some [[7], [9 :: byte]]"
    by (simp add: valid_records_def)
  have c: "consistent Some [[7], [9]]
             (open_single False (flat_trace [[7], [9]]) False :: byte list single)"
    by (rule open_single_consistent)
  have rc: "\<not> read_complete (open_single False (flat_trace [[7], [9]]) False :: byte list single)"
    by (simp add: open_single_def)
  from retrieve_offsets_table [OF v c rc] v rc show ?thesis by blast
qed

text \<open>
  Claim C1 as stated fails: on the trace of the single record \<open>[7]\<close> (five bytes) a fresh
  reader returns a table with one entry, where the claim promises two.
\<close>

theorem retrieve_offsets_table_counterexample:
  "map_option (map_sum id (length \<circ> fst))
     (retrieve_offsets Some None
        (open_single False [1, 0, 0, 0, 7] False :: byte list single)) = Some (Inr 1) \<and>
   (1 :: nat) \<noteq> length [[7 :: byte]] + 1"
  by (simp add: retrieve_offsets_def open_single_def nth_py_def seek_set_def
      retrieve_offsets_loop.simps within_limit_def retrieve_message_def seek_index_def
      cached_def read_next_def read_def tell_def header_length_def unpack_L_def Let_def
      seek_cur_def end_of_stream_def)

lemma iterate_fresh:
  assumes v: "valid_records parse recs"
  shows "\<exists>s'. iterate parse (open_single lzma (flat_trace recs) cm) =
           Some (map (\<lambda>r. RMessage (the (parse r))) recs, Inr s')"
proof -
  have "\<exists>s'. iterate parse (open_single lzma (flat_trace recs) cm) =
           Some (map (\<lambda>r. RMessage (the (parse r))) (drop 0 recs), Inr s') \<and>
           consistent parse recs s'"
    by (rule iterate_from [OF v open_single_consistent]) (simp_all add: open_single_def)
  then show ?thesis by auto
qed

text \<open>
  Claim C2. On a valid trace, for a reader consistent with it and every index \<open>i\<close> below
  the number of records, \<open>get_message_by_index(i)\<close> returns the \<open>i\<close>-th of the messages
  that iterating a freshly opened reader over the same trace yields.
\<close>

theorem get_message_by_index_matches_iteration:
  assumes v: "valid_records parse recs"
    and c: "consistent parse recs s"
    and i: "i < length recs"
  shows "\<exists>ys fin s'. iterate parse (open_single lzma (flat_trace recs) cm) = Some (ys, fin) \<and>
           length ys = length recs \<and>
           get_message_by_index parse (int i) s = Some (Inr (ys ! i, s'))"
proof -
  from iterate_fresh [OF v, of lzma cm] obtain s0 where
    "iterate parse (open_single lzma (flat_trace recs) cm) =
       Some (map (\<lambda>r. RMessage (the (parse r))) recs, Inr s0)"
    by blast
  moreover from get_message_by_index_in_range [OF v c i] obtain s' where
    "get_message_by_index parse (int i) s = Some (Inr (RMessage (the (parse (recs ! i))), s'))"
    by blast
  ultimately show ?thesis using i by simp
qed

text \<open>Claim C2 at index 1 of a trace of two records.\<close>

theorem get_message_by_index_matches_iteration_witness:
  "valid_records Some [[7], [9 :: byte]] \<and> (1 :: nat) < length [[7], [9 :: byte]] \<and>
   (\<exists>ys fin s'. iterate Some (open_single False (flat_trace [[7], [9]]) True) =
        Some (ys, fin :: error + byte list single) \<and>
      length ys = length [[7], [9 :: byte]] \<and>
      get_message_by_index Some (int 1) (open_single True (flat_trace [[7], [9]]) False) =
        Some (Inr (ys ! 1, s')))"
proof -
  have v: "valid_records Some [[7], [9 :: byte]]"
    by (simp add: valid_records_def)
  have c: "consistent Some [[7], [9]]
             (open_single True (flat_trace [[7], [9]]) False :: byte list single)"
    by (rule open_single_consistent)
  have i: "(1 :: nat) < length [[7], [9 :: byte]]" by simp
  from get_message_by_index_matches_iteration [OF v c i, of False True] v i
  show ?thesis by blast
qed

text \<open>
  Claim C9. On a valid trace of \<open>n\<close> records, for a reader consistent with it and an
  index \<open>i < n\<close> that the offset table covers, \<open>restart(i)\<close> followed by iteration yields
  the messages \<open>i, i + 1, ..., n - 1\<close>: the iteration of a fresh reader without its first
  \<open>i\<close> messages.
\<close>

theorem restart_then_iterate_suffix:
  assumes v: "valid_records parse recs"
    and c: "consistent parse recs s"
    and i: "i < length recs"
    and k: "i < length (message_offsets s)"
  shows "\<exists>ys fin s1 s'. iterate parse (open_single lzma (flat_trace recs) cm) = Some (ys, fin) \<and>
           length ys = length recs \<and>
           restart (Some (int i)) s = Inr s1 \<and>
           iterate parse s1 = Some (drop i ys, Inr s')"
proof -
  note t = consistent_table [OF c]
  from iterate_fresh [OF v, of lzma cm] obtain s0 where
    f: "iterate parse (open_single lzma (flat_trace recs) cm) =
       Some (map (\<lambda>r. RMessage (the (parse r))) recs, Inr s0)"
    by blast
  have n: "nth_py (message_offsets s) (int i) = Inr (offset_of recs i)"
    using nth_py_nat [of "message_offsets s" i] k consistent_nth [OF c k] by simp
  have "offset_of recs i \<le> length (content (file_obj s))"
    using t offset_of_le_length [of i recs] i by simp
  then have sk: "seek_set (offset_of recs i) (file_obj s) =
               (file_obj s)\<lparr>position := offset_of recs i\<rparr>"
    by (rule seek_set_within)
  let ?s1 = "s\<lparr>file_obj := (file_obj s)\<lparr>position := offset_of recs i\<rparr>,
                current_index := int i\<rparr>"
  have r: "restart (Some (int i)) s = Inr ?s1"
    using n sk by (simp add: restart_def)
  have "consistent parse recs ?s1 = consistent parse recs s"
    by (rule consistent_fields_cong) simp_all
  with c have c1: "consistent parse recs ?s1" by simp
  have ne: "message_offsets ?s1 \<noteq> []" using k by auto
  from iterate_from [OF v c1 _ _ _ ne, of i] i obtain s' where
    "iterate parse ?s1 = Some (map (\<lambda>r. RMessage (the (parse r))) (drop i recs), Inr s')"
    by auto
  with f r show ?thesis by (simp add: drop_map)
qed

text \<open>
  Claim C9 at index 1 of a trace of two records, on the reader that \<open>retrieve_offsets()\<close>
  leaves (table \<open>[0, 5]\<close>, positioned at the end of the file): \<open>restart(1)\<close> moves the
  reader back to offset 5 and iteration yields the second record only.
\<close>

theorem restart_then_iterate_suffix_witness:
  "retrieve_offsets Some None (open_single False (flat_trace [[7], [9]]) False) =
     Some (Inr ([0, 5],
       \<lparr>file_obj = \<lparr>content = flat_trace [[7], [9]], position = 10, clamped = False\<rparr>,
        current_index = 2, message_offsets = [0, 5], read_complete = True,
        message_cache = None\<rparr>)) \<and>
   valid_records Some [[7], [9 :: byte]] \<and> (1 :: nat) < length [[7], [9 :: byte]] \<and>
   (1 :: nat) < length (message_offsets
      \<lparr>file_obj = \<lparr>content = flat_trace [[7], [9]], position = 10, clamped = False\<rparr>,
       current_index = 2, message_offsets = [0, 5], read_complete = True,
       message_cache = None :: (int \<rightharpoonup> byte list) option\<rparr>) \<and>
   restart (Some (int 1))
      \<lparr>file_obj = \<lparr>content = flat_trace [[7], [9]], position = 10, clamped = False\<rparr>,
       current_index = 2, message_offsets = [0, 5], read_complete = True,
       message_cache = None :: (int \<rightharpoonup> byte list) option\<rparr> =
     Inr \<lparr>file_obj = \<lparr>content = flat_trace [[7], [9]], position = 5, clamped = False\<rparr>,
          current_index = 1, message_offsets = [0, 5], read_complete = True,
          message_cache = None\<rparr> \<and>
   (\<exists>ys fin s1 s'. iterate Some (open_single False (flat_trace [[7], [9]]) False) =
        Some (ys, fin :: error + byte list single) \<and>
      length ys = length [[7], [9 :: byte]] \<and>
      restart (Some (int 1))
        \<lparr>file_obj = \<lparr>content = flat_trace [[7], [9]], position = 10, clamped = False\<rparr>,
         current_index = 2, message_offsets = [0, 5], read_complete = True,
         message_cache = None\<rparr> = Inr s1 \<and>
      iterate Some s1 = Some (drop 1 ys, Inr s'))"
proof -
  let ?fresh = "open_single False (flat_trace [[7], [9]]) False :: byte list single"
  let ?done = "\<lparr>file_obj = \<lparr>content = flat_trace [[7], [9]], position = 10, clamped = False\<rparr>,
        current_index = 2, message_offsets = [0, 5], read_complete = True,
        message_cache = None :: (int \<rightharpoonup> byte list) option\<rparr>"
  have v: "valid_records Some [[7], [9 :: byte]]"
    by (simp add: valid_records_def)
  have c0: "consistent Some [[7], [9]] ?fresh"
    by (rule open_single_consistent)
  have rc: "\<not> read_complete ?fresh"
    by (simp add: open_single_def)
  have e: "retrieve_offsets Some None ?fresh = Some (Inr ([0, 5], ?done))"
    by (simp add: retrieve_offsets_def open_single_def nth_py_def seek_set_def
        retrieve_offsets_loop.simps within_limit_def retrieve_message_def seek_index_def
        cached_def read_next_def read_def tell_def header_length_def unpack_L_def Let_def
        seek_cur_def end_of_stream_def flat_trace_def frame_def pack_L_def)
  from retrieve_offsets_all [OF v c0 rc] obtain s' where
    a: "retrieve_offsets Some None ?fresh =
          Some (Inr (map (offset_of [[7], [9]]) [0..<length [[7], [9 :: byte]]], s'))"
      "consistent Some [[7], [9]] s'"
    by blast
  from a(1) e have "s' = ?done" by simp
  with a(2) have c: "consistent Some [[7], [9]] ?done" by simp
  have i: "(1 :: nat) < length [[7], [9 :: byte]]" by simp
  have k: "(1 :: nat) < length (message_offsets ?done)" by simp
  have r: "restart (Some (int 1)) ?done =
     Inr \<lparr>file_obj = \<lparr>content = flat_trace [[7], [9]], position = 5, clamped = False\<rparr>,
          current_index = 1, message_offsets = [0, 5], read_complete = True,
          message_cache = None\<rparr>"
    by (simp add: restart_def nth_py_def seek_set_def)
  from restart_then_iterate_suffix [OF v c i k, of False False] e v i k r
  show ?thesis by blast
qed


lemma read_next_no_index_error:
  "message_offsets s \<noteq> [] \<Longrightarrow> read_next parse skip s \<noteq> Inl IndexError"
  by (auto simp: read_next_def end_of_stream_def nth_py_last Let_def
      split: prod.splits option.splits)

lemma nth_py_negative:
  "- int (length xs) \<le> k \<Longrightarrow> k < 0 \<Longrightarrow> nth_py xs k = Inr (xs ! nat (int (length xs) + k))"
  by (simp add: nth_py_def)

text \<open>
  Claim C10. On a reader whose offset table is not empty, \<open>get_message_by_index(k)\<close>
  with \<open>-len(message_offsets) <= k < 0\<close> does not raise \<open>IndexError\<close>: unless the cache
  holds a message under \<open>k\<close>, the call seeks to the offset that Python's list indexing
  finds for \<open>k\<close> (the last known offset for \<open>k = -1\<close>) and returns what a read from
  there returns.
\<close>

theorem negative_index_not_rejected:
  assumes ne: "message_offsets s \<noteq> []"
    and lo: "- int (length (message_offsets s)) \<le> k"
    and hi: "k < 0"
  shows "get_message_by_index parse k s \<noteq> Some (Inl IndexError) \<and>
         get_message_by_index parse k s =
           (case cached s k of
              Some m \<Rightarrow> Some (Inr (RMessage m, s))
            | None \<Rightarrow>
                Some (read_next parse False
                  (s\<lparr>file_obj :=
                       seek_set (message_offsets s ! nat (int (length (message_offsets s)) + k))
                         (file_obj s),
                     current_index := k\<rparr>)))"
proof -
  let ?s1 = "s\<lparr>file_obj :=
                 seek_set (message_offsets s ! nat (int (length (message_offsets s)) + k))
                   (file_obj s),
               current_index := k\<rparr>"
  have lt: "\<not> int (length (message_offsets s)) \<le> k" using hi by simp
  have si: "seek_index (Some k) s = Inr ?s1"
    using nth_py_negative [OF lo hi] by (simp add: seek_index_def)
  have eq: "get_message_by_index parse k s =
           (case cached s k of
              Some m \<Rightarrow> Some (Inr (RMessage m, s))
            | None \<Rightarrow> Some (read_next parse False ?s1))"
    using lt si by (simp add: get_message_by_index_def retrieve_message_def cached_def
        split: option.splits)
  have "read_next parse False ?s1 \<noteq> Inl IndexError"
    by (rule read_next_no_index_error) (simp add: ne)
  with eq show ?thesis by (auto split: option.splits)
qed

text \<open>
  Claim C10 at \<open>k = -1\<close> on a trace of two records, on the reader that has read the first
  (table \<open>[0, 5]\<close>): the call seeks to offset 5, the last entry, returns the second
  record and leaves \<open>current_index\<close> at \<open>-1 + 1 = 0\<close>.
\<close>

theorem negative_index_not_rejected_witness:
  "message_offsets
     \<lparr>file_obj = \<lparr>content = [1, 0, 0, 0, 7, 1, 0, 0, 0, 9], position = 5, clamped = False\<rparr>,
      current_index = 1, message_offsets = [0, 5], read_complete = False,
      message_cache = None :: (int \<rightharpoonup> byte list) option\<rparr> \<noteq> [] \<and>
   - int (length (message_offsets
     \<lparr>file_obj = \<lparr>content = [1, 0, 0, 0, 7, 1, 0, 0, 0, 9], position = 5, clamped = False\<rparr>,
      current_index = 1, message_offsets = [0, 5], read_complete = False,
      message_cache = None :: (int \<rightharpoonup> byte list) option\<rparr>)) \<le> - 1 \<and>
   (- 1 :: int) < 0 \<and>
   retrieve_message Some None False (open_single False [1, 0, 0, 0, 7, 1, 0, 0, 0, 9] False) =
     Inr (RMessage [7],
       \<lparr>file_obj = \<lparr>content = [1, 0, 0, 0, 7, 1, 0, 0, 0, 9], position = 5, clamped = False\<rparr>,
        current_index = 1, message_offsets = [0, 5], read_complete = False,
        message_cache = None\<rparr>) \<and>
   get_message_by_index Some (- 1)
     \<lparr>file_obj = \<lparr>content = [1, 0, 0, 0, 7, 1, 0, 0, 0, 9], position = 5, clamped = False\<rparr>,
      current_index = 1, message_offsets = [0, 5], read_complete = False,
      message_cache = None\<rparr> \<noteq> Some (Inl IndexError) \<and>
   get_message_by_index Some (- 1)
     \<lparr>file_obj = \<lparr>content = [1, 0, 0, 0, 7, 1, 0, 0, 0, 9], position = 5, clamped = False\<rparr>,
      current_index = 1, message_offsets = [0, 5], read_complete = False,
      message_cache = None\<rparr> =
     Some (Inr (RMessage [9],
       \<lparr>file_obj = \<lparr>content = [1, 0, 0, 0, 7, 1, 0, 0, 0, 9], position = 10, clamped = False\<rparr>,
        current_index = 0, message_offsets = [0, 5, 10], read_complete = False,
        message_cache = None\<rparr>))"
proof -
  let ?one = "\<lparr>file_obj = \<lparr>content = [1, 0, 0, 0, 7, 1, 0, 0, 0, 9], position = 5, clamped = False\<rparr>,
      current_index = 1, message_offsets = [0, 5], read_complete = False,
      message_cache = None :: (int \<rightharpoonup> byte list) option\<rparr>"
  have ne: "message_offsets ?one \<noteq> []" by simp
  have lo: "- int (length (message_offsets ?one)) \<le> - 1" by simp
  have hi: "(- 1 :: int) < 0" by simp
  have f: "retrieve_message Some None False
             (open_single False [1, 0, 0, 0, 7, 1, 0, 0, 0, 9] False) = Inr (RMessage [7], ?one)"
    by (simp add: open_single_def retrieve_message_def seek_index_def cached_def read_next_def
        read_def tell_def header_length_def unpack_L_def nth_py_def Let_def)
  have c: "cached ?one (- 1) = None" by (simp add: cached_def)
  have r: "read_next Some False
     (?one\<lparr>file_obj :=
          seek_set (message_offsets ?one ! nat (int (length (message_offsets ?one)) + - 1))
            (file_obj ?one),
        current_index := - 1\<rparr>) =
     Inr (RMessage [9],
       \<lparr>file_obj = \<lparr>content = [1, 0, 0, 0, 7, 1, 0, 0, 0, 9], position = 10, clamped = False\<rparr>,
        current_index = 0, message_offsets = [0, 5, 10], read_complete = False,
        message_cache = None\<rparr>)"
    by (simp add: seek_set_def read_next_def read_def tell_def
        header_length_def unpack_L_def nth_py_def Let_def)
  from negative_index_not_rejected [OF ne lo hi, of Some] c r ne lo hi f
  show ?thesis by simp
qed

section \<open>Where the single-channel reader departs from its description\<close>

text \<open>
  Claim C3 at the input where the code breaks it. The file holds two bytes, a partial
  length prefix and no complete record. The first \<open>retrieve_message()\<close> returns \<open>None\<close>,
  rewinds to offset 0 and removes the only entry of the offset table; the second call
  at the same boundary then raises \<open>IndexError\<close> from \<open>self.message_offsets[-1]\<close>
  instead of returning \<open>None\<close> again.
\<close>

theorem truncated_first_record_second_read_raises:
  "retrieve_message Some None False (open_single False [5, 0] False) =
     Inr (RNone,
       \<lparr>file_obj = \<lparr>content = [5, 0], position = 0, clamped = False\<rparr>,
        current_index = 0, message_offsets = [], read_complete = True,
        message_cache = None :: (int \<rightharpoonup> byte list) option\<rparr>) \<and>
   retrieve_message Some None False
       \<lparr>file_obj = \<lparr>content = [5, 0], position = 0, clamped = False\<rparr>,
        current_index = 0, message_offsets = [], read_complete = True,
        message_cache = None :: (int \<rightharpoonup> byte list) option\<rparr> = Inl IndexError"
  by (simp add: open_single_def retrieve_message_def seek_index_def cached_def read_next_def
      read_def tell_def header_length_def end_of_stream_def nth_py_def seek_set_def Let_def)

text \<open>With one complete record before the truncation the table keeps an entry, and the
  repeated call returns \<open>None\<close> and leaves the reader as it was.\<close>

lemma truncated_after_record_repeats:
  "iterate Some (open_single False ([1, 0, 0, 0, 7] @ [5, 0]) False) =
     Some ([RMessage [7]],
       Inr \<lparr>file_obj = \<lparr>content = [1, 0, 0, 0, 7, 5, 0], position = 5, clamped = False\<rparr>,
            current_index = 1, message_offsets = [0], read_complete = True,
            message_cache = None\<rparr>) \<and>
   retrieve_message Some None False
       \<lparr>file_obj = \<lparr>content = [1, 0, 0, 0, 7, 5, 0], position = 5, clamped = False\<rparr>,
        current_index = 1, message_offsets = [0], read_complete = True,
        message_cache = None :: (int \<rightharpoonup> byte list) option\<rparr> =
     Inr (RNone,
       \<lparr>file_obj = \<lparr>content = [1, 0, 0, 0, 7, 5, 0], position = 5, clamped = False\<rparr>,
        current_index = 1, message_offsets = [0], read_complete = True,
        message_cache = None\<rparr>)"
  by (simp add: iterate.simps open_single_def retrieve_message_def seek_index_def cached_def
      read_next_def read_def tell_def header_length_def end_of_stream_def nth_py_def
      seek_set_def unpack_L_def Let_def)

text \<open>
  The same for every truncated trace. A read at the end of the complete records, where
  only a partial record is left, returns \<open>None\<close> and seeks back to where it started; it
  removes the last table entry when that entry is the start of the partial record, and
  fails only on an empty table.
\<close>

lemma reading_at_0:
  "reading_at parse lzma recs tail cm 0 = open_single lzma (flat_trace recs @ tail) cm"
  by (auto simp: reading_at_def open_single_def fun_eq_iff)

lemma reading_at_step:
  assumes v: "valid_records parse recs" and j: "j < length recs"
  shows "retrieve_message parse None False (reading_at parse lzma recs tail cm j) =
           Inr (RMessage (the (parse (recs ! j))), reading_at parse lzma recs tail cm (Suc j))"
proof -
  let ?s = "reading_at parse lzma recs tail cm j"
  from valid_records_nth [OF v j] obtain m where
    len: "length (recs ! j) < 2 ^ 32" and m: "parse (recs ! j) = Some m"
    by blast
  have c: "content (file_obj ?s) = flat_trace recs @ tail" by (simp add: reading_at_def)
  have p: "position (file_obj ?s) = offset_of recs j" by (simp add: reading_at_def)
  have ne: "message_offsets ?s \<noteq> []" by (simp add: reading_at_def)
  have l: "last (message_offsets ?s) = offset_of recs j" by (simp add: reading_at_def)
  have nc: "cached ?s (current_index ?s) = None" by (simp add: reading_at_def cached_def)
  have cache: "(\<lambda>i. if 0 \<le> i \<and> i < int j then parse (recs ! nat i) else None)(int j \<mapsto> m) =
               (\<lambda>i. if 0 \<le> i \<and> i < int (Suc j) then parse (recs ! nat i) else None)"
    using m by (auto simp: fun_eq_iff)
  have "read_next parse False ?s = Inr (RMessage m, reading_at parse lzma recs tail cm (Suc j))"
    using read_next_record [where parse = parse and m = m, OF c p j len m ne] l cache
    by (simp add: reading_at_def)
  then show ?thesis
    using nc m by (simp add: retrieve_message_def seek_index_def)
qed

lemma read_next_partial:
  assumes c: "content (file_obj s) = flat_trace recs @ tail"
    and p: "position (file_obj s) = offset_of recs (length recs)"
    and t: "partial_record tail"
  shows "read_next parse False s =
     (case nth_py (message_offsets s) (- 1) of
        Inl e \<Rightarrow> Inl e
      | Inr l \<Rightarrow>
          Inr (RNone,
               (if offset_of recs (length recs) = l
                then s\<lparr>message_offsets := butlast (message_offsets s), read_complete := True\<rparr>
                else s)\<lparr>file_obj := (file_obj s)\<lparr>position := offset_of recs (length recs)\<rparr>\<rparr>))"
proof -
  have d: "drop (position (file_obj s)) (content (file_obj s)) = tail"
    using c p drop_end [of recs tail] by simp
  have le: "offset_of recs (length recs) \<le> length (content (file_obj s))"
    using c by (simp add: offset_of_length)
  have sk: "seek_set (offset_of recs (length recs)) ((file_obj s)\<lparr>position := x\<rparr>) =
            (file_obj s)\<lparr>position := offset_of recs (length recs)\<rparr>" for x
    using le by (simp add: seek_set_def)
  show ?thesis
  proof (cases "length tail < 4")
    case True
    then show ?thesis
      using d p sk
      by (simp add: read_next_def read_def tell_def header_length_def end_of_stream_def Let_def
          split: sum.splits)
  next
    case False
    with t have short: "length tail < 4 + unpack_L (take 4 tail)"
      by (simp add: partial_record_def)
    have d2: "drop (position (file_obj s) + 4) (content (file_obj s)) = drop 4 tail"
      using d by (metis add.commute drop_drop)
    have len: "length (content (file_obj s)) = offset_of recs (length recs) + length tail"
      using c by (simp add: offset_of_length)
    have h: "length (take 4 tail) = 4" using False by simp
    have pl: "length (take (unpack_L (take 4 tail)) (drop 4 tail)) < unpack_L (take 4 tail)"
      using short False by simp
    show ?thesis
      using False h pl d d2 p sk
      by (simp add: read_next_def read_def tell_def header_length_def end_of_stream_def Let_def
          len del: length_take take_all_iff split: sum.splits)
  qed
qed

lemma iterate_truncated:
  assumes v: "valid_records parse recs" and t: "partial_record tail"
  shows "j \<le> length recs \<Longrightarrow>
     iterate parse (reading_at parse lzma recs tail cm j) =
       Some (map (\<lambda>r. RMessage (the (parse r))) (drop j recs),
             Inr ((reading_at parse lzma recs tail cm (length recs))
                    \<lparr>message_offsets := map (offset_of recs) [0..<length recs],
                     read_complete := True\<rparr>))"
proof (induction "length recs - j" arbitrary: j)
  case 0
  then have j: "j = length recs" by simp
  let ?s = "reading_at parse lzma recs tail cm (length recs)"
  have nc: "cached ?s (current_index ?s) = None" by (simp add: reading_at_def cached_def)
  have "read_next parse False ?s =
        Inr (RNone, ?s\<lparr>message_offsets := map (offset_of recs) [0..<length recs],
                        read_complete := True\<rparr>)"
    using read_next_partial [of ?s recs tail parse] t
    by (simp add: reading_at_def nth_py_last)
  then show ?case
    using nc j by (subst iterate.simps) (simp add: retrieve_message_def seek_index_def)
next
  case (Suc d)
  then have j: "j < length recs" by simp
  have "d = length recs - Suc j" using Suc.hyps(2) by simp
  from Suc.hyps(1) [OF this] j have
    "iterate parse (reading_at parse lzma recs tail cm (Suc j)) =
       Some (map (\<lambda>r. RMessage (the (parse r))) (drop (Suc j) recs),
             Inr ((reading_at parse lzma recs tail cm (length recs))
                    \<lparr>message_offsets := map (offset_of recs) [0..<length recs],
                     read_complete := True\<rparr>))"
    by simp
  moreover have "drop j recs = recs ! j # drop (Suc j) recs"
    using j by (simp add: Cons_nth_drop_Suc)
  ultimately show ?case
    using reading_at_step [OF v j, of lzma tail cm]
    by (subst iterate.simps) simp
qed

text \<open>
  With at least one complete record, iteration yields exactly the complete records, ends
  at the start of the partial record, and every further \<open>retrieve_message()\<close> there
  returns \<open>None\<close> and leaves the reader as it is.
\<close>

lemma truncated_trace_repeats:
  assumes v: "valid_records parse recs" and t: "partial_record tail" and n: "recs \<noteq> []"
  shows "\<exists>s'. iterate parse (open_single lzma (flat_trace recs @ tail) cm) =
           Some (map (\<lambda>r. RMessage (the (parse r))) recs, Inr s') \<and>
         position (file_obj s') = offset_of recs (length recs) \<and>
         retrieve_message parse None False s' = Inr (RNone, s')"
proof -
  let ?s' = "(reading_at parse lzma recs tail cm (length recs))
               \<lparr>message_offsets := map (offset_of recs) [0..<length recs],
                read_complete := True\<rparr>"
  have i: "iterate parse (open_single lzma (flat_trace recs @ tail) cm) =
           Some (map (\<lambda>r. RMessage (the (parse r))) recs, Inr ?s')"
    using iterate_truncated [OF v t, of 0 lzma cm] by (simp add: reading_at_0)
  have nc: "cached ?s' (current_index ?s') = None" by (simp add: reading_at_def cached_def)
  have len: "0 < length recs" using n by simp
  then have l: "last (map (offset_of recs) [0..<length recs]) = offset_of recs (length recs - 1)"
    by (simp add: last_map)
  have ne: "offset_of recs (length recs) \<noteq> offset_of recs (length recs - 1)"
    using offset_of_strict [of "length recs - 1" "length recs" recs] len by simp
  have "read_next parse False ?s' = Inr (RNone, ?s')"
    using read_next_partial [of ?s' recs tail parse] t l ne len
    by (simp add: reading_at_def nth_py_last)
  then have "retrieve_message parse None False ?s' = Inr (RNone, ?s')"
    using nc by (simp add: retrieve_message_def seek_index_def)
  with i show ?thesis by (auto simp: reading_at_def)
qed

text \<open>
  With no complete record (the file is a partial record, or empty) the first call
  returns \<open>None\<close> and the second raises \<open>IndexError\<close>, for every such file.
\<close>

lemma truncated_first_record_raises:
  assumes t: "partial_record tail"
  shows "\<exists>s'. retrieve_message parse None False (open_single lzma tail cm) = Inr (RNone, s') \<and>
              retrieve_message parse None False s' = Inl IndexError"
proof -
  let ?s = "reading_at parse lzma [] tail cm 0"
  let ?s' = "?s\<lparr>message_offsets := [], read_complete := True\<rparr>"
  have o: "open_single lzma tail cm = ?s"
    using reading_at_0 [of parse lzma "[]" tail cm] by (simp add: flat_trace_def)
  have nc: "cached ?s (current_index ?s) = None" "cached ?s' (current_index ?s') = None"
    by (simp_all add: reading_at_def cached_def)
  have "read_next parse False ?s = Inr (RNone, ?s')"
    using read_next_partial [of ?s "[]" tail parse] t
    by (simp add: reading_at_def nth_py_last flat_trace_def)
  moreover have "read_next parse False ?s' = Inl IndexError"
    using read_next_partial [of ?s' "[]" tail parse] t
    by (simp add: reading_at_def nth_py_last flat_trace_def)
  ultimately show ?thesis
    using nc o by (simp add: retrieve_message_def seek_index_def)
qed

text \<open>
  Claim C4 at the input where the code breaks it. On a trace of one record a freshly
  opened reader answers \<open>get_message_by_index(1)\<close> with \<open>None\<close>: \<open>retrieve_offsets(1)\<close>
  stops as soon as the table has an entry for index 1, which is the end of the stream.
  The same call on the reader this leaves raises \<open>IndexError\<close>, and so does
  \<open>get_message_by_index(2)\<close> on a fresh reader.
\<close>

theorem index_one_past_end_returns_none:
  "get_message_by_index Some 1 (open_single False [1, 0, 0, 0, 7] False) =
     Some (Inr (RNone,
       \<lparr>file_obj = \<lparr>content = [1, 0, 0, 0, 7], position = 5, clamped = False\<rparr>,
        current_index = 1, message_offsets = [0], read_complete = True,
        message_cache = None :: (int \<rightharpoonup> byte list) option\<rparr>)) \<and>
   get_message_by_index Some 1
       \<lparr>file_obj = \<lparr>content = [1, 0, 0, 0, 7], position = 5, clamped = False\<rparr>,
        current_index = 1, message_offsets = [0], read_complete = True,
        message_cache = None :: (int \<rightharpoonup> byte list) option\<rparr> = Some (Inl IndexError) \<and>
   get_message_by_index Some 2
       (open_single False [1, 0, 0, 0, 7] False :: byte list single) = Some (Inl IndexError)"
  by (simp add: get_message_by_index_def retrieve_offsets_def open_single_def nth_py_def
      seek_set_def retrieve_offsets_loop.simps within_limit_def retrieve_message_def
      seek_index_def cached_def read_next_def read_def tell_def header_length_def unpack_L_def
      Let_def seek_cur_def end_of_stream_def)

text \<open>
  The same on every valid trace of \<open>n\<close> records: index \<open>n\<close> is answered with \<open>None\<close> by a
  reader that has not seen the end of the stream, and with \<open>IndexError\<close> by one that
  has seen it and popped its last offset.
\<close>

lemma get_message_by_index_past_end_cold:
  assumes v: "valid_records parse recs"
    and c: "consistent parse recs s"
    and rc: "\<not> read_complete s"
  shows "\<exists>s'. get_message_by_index parse (int (length recs)) s = Some (Inr (RNone, s'))"
proof -
  have known: "\<exists>s'. (case cached s1 (int (length recs)) of
                        Some message \<Rightarrow> Some (Inr (RMessage message, s1))
                      | None \<Rightarrow> Some (retrieve_message parse (Some (int (length recs))) False s1)) =
                   Some (Inr (RNone, s'))"
    if c1: "consistent parse recs s1" and k1: "length (message_offsets s1) = Suc (length recs)"
    for s1
  proof -
    note t = consistent_table [OF c1]
    have nc: "cached s1 (int (length recs)) = None"
    proof (cases "cached s1 (int (length recs))")
      case None then show ?thesis .
    next
      case (Some m)
      from consistent_cached [OF c1 Some] show ?thesis by simp
    qed
    have lt: "length recs < length (message_offsets s1)" using k1 by simp
    have n: "nth_py (message_offsets s1) (int (length recs)) = Inr (offset_of recs (length recs))"
      using nth_py_nat [of "message_offsets s1" "length recs"] lt consistent_nth [OF c1 lt]
      by simp
    have "offset_of recs (length recs) \<le> length (content (file_obj s1))"
      using t by (simp add: offset_of_length)
    then have sk: "seek_set (offset_of recs (length recs)) (file_obj s1) =
                 (file_obj s1)\<lparr>position := offset_of recs (length recs)\<rparr>"
      by (rule seek_set_within)
    let ?s2 = "s1\<lparr>file_obj := (file_obj s1)\<lparr>position := offset_of recs (length recs)\<rparr>,
                  current_index := int (length recs)\<rparr>"
    have si: "seek_index (Some (int (length recs))) s1 = Inr ?s2"
      using n sk by (simp add: seek_index_def)
    have "consistent parse recs ?s2 = consistent parse recs s1"
      by (rule consistent_fields_cong) simp_all
    with c1 have c2: "consistent parse recs ?s2" by simp
    have ne: "message_offsets ?s2 \<noteq> []" using k1 by auto
    from retrieve_message_at_end [OF c2 _ _ ne, where skip = False] obtain s' where
      "retrieve_message parse None False ?s2 = Inr (RNone, s')"
      by auto
    then show ?thesis
      using nc retrieve_message_after_seek [OF si, of parse False] by simp
  qed
  note t = consistent_table [OF c]
  show ?thesis
  proof (cases "length recs < length (message_offsets s)")
    case True
    with t have "length (message_offsets s) = Suc (length recs)" by simp
    from known [OF c this] True show ?thesis
      by (simp add: get_message_by_index_def)
  next
    case False
    then have ge: "length (message_offsets s) \<le> length recs" by simp
    from retrieve_offsets_limit [OF v c rc ge] obtain tab s1 where
      s1: "retrieve_offsets parse (Some (int (length recs))) s = Some (Inr (tab, s1))"
        "consistent parse recs s1" "length (message_offsets s1) = Suc (length recs)"
      by auto
    from known [OF s1(2,3)] s1(1) ge show ?thesis
      by (simp add: get_message_by_index_def)
  qed
qed

lemma get_message_by_index_past_end_warm:
  assumes c: "consistent parse recs s"
    and rc: "read_complete s"
    and k: "length (message_offsets s) = length recs"
  shows "get_message_by_index parse (int (length recs)) s = Some (Inl IndexError)"
proof -
  have nc: "cached s (int (length recs)) = None"
  proof (cases "cached s (int (length recs))")
    case None then show ?thesis .
  next
    case (Some m)
    from consistent_cached [OF c Some] show ?thesis by simp
  qed
  have l: "retrieve_offsets_loop parse (Some (int (length recs))) s = Some (Inr s)"
    using rc by (subst retrieve_offsets_loop.simps) simp
  show ?thesis
    using rc k nc l
    by (simp add: get_message_by_index_def retrieve_offsets_def retrieve_message_def
        seek_index_def nth_py_def)
qed

section \<open>The facade over a multi-channel reader\<close>

text \<open>
  Claim C8. When the reader of an \<open>OSITrace\<close> is the multi-channel (mcap) reader, each
  of the legacy accessors \<open>retrieve_offsets\<close>, \<open>retrieve_message\<close>,
  \<open>get_message_by_index\<close> and \<open>get_messages_in_index_range\<close>, and \<open>restart\<close> with an
  index, raises \<open>NotImplementedError\<close>.
\<close>

theorem facade_unsupported_for_multi:
  "OSITrace_retrieve_offsets parse limit (Multi m) = Some (Inl NotImplementedError) \<and>
   OSITrace_retrieve_message parse index skip (Multi m) = Inl NotImplementedError \<and>
   OSITrace_get_message_by_index parse i (Multi m) = Some (Inl NotImplementedError) \<and>
   OSITrace_get_messages_in_index_range parse b e (Multi m) =
     Some ([], Inl NotImplementedError) \<and>
   OSITrace_restart (Some i) (Multi m) = Inl NotImplementedError"
  by (simp add: OSITrace_retrieve_offsets_def OSITrace_retrieve_message_def
      OSITrace_get_message_by_index_def OSITrace_get_messages_in_index_range_def
      OSITrace_restart_def restart_multi_def)

section \<open>The indexed mcap reader: runs and lookups\<close>

lemma gen_next_state_free:
  fixes env :: "('sc, 'd) mcap" and s :: "'d indexed"
  shows "\<exists>r. \<forall>s'. gen_next env flt g s' =
     map_sum id (map_option (\<lambda>(y, g', e). (y, g', s'\<lparr>index_map := index_map s' @ [e]\<rparr>))) r"
proof (induction env flt g s rule: gen_next.induct)
  case (1 env flt global_idx s)
  have "\<forall>s'. gen_next env flt (Linear [] global_idx) s' =
     map_sum id (map_option (\<lambda>(y, g', e). (y, g', s'\<lparr>index_map := index_map s' @ [e]\<rparr>)))
       (Inr None)"
    by simp
  then show ?case by blast
next
  case (2 env flt x xs global_idx s)
  have "\<forall>s'. gen_next env flt (Linear (x # xs) global_idx) s' =
     map_sum id (map_option (\<lambda>(y, g', e). (y, g', s'\<lparr>index_map := index_map s' @ [e]\<rparr>)))
       (Inr (Some ((fst x, fst (snd x), snd (snd x), global_idx), Linear xs (Suc global_idx),
                   (None, global_idx))))"
    by simp
  then show ?case by blast
next
  case (3 env flt summ q global_idx s)
  show ?case
  proof (cases "q = []")
    case True
    have "\<forall>s'. gen_next env flt (Merging summ q global_idx) s' =
       map_sum id (map_option (\<lambda>(y, g', e). (y, g', s'\<lparr>index_map := index_map s' @ [e]\<rparr>)))
         (Inr None)"
      using True by simp
    then show ?thesis by blast
  next
    case False
    obtain it q1 where pop: "mq_pop env flt q = (it, q1)" by (cases "mq_pop env flt q")
    show ?thesis
    proof (cases it)
      case (MessageItem tup chunk_offset idx_in_chunk)
      have "\<forall>s'. gen_next env flt (Merging summ q global_idx) s' =
         map_sum id (map_option (\<lambda>(y, g', e). (y, g', s'\<lparr>index_map := index_map s' @ [e]\<rparr>)))
           (Inr (Some ((fst tup, fst (snd tup), snd (snd tup), global_idx),
                       Merging summ q1 (Suc global_idx), (Some chunk_offset, idx_in_chunk))))"
        using False pop MessageItem by simp
      then show ?thesis by blast
    next
      case (ChunkItem next_item)
      show ?thesis
      proof (cases "read_chunk env (chunk_start_offset next_item)")
        case (Inl e)
        have "\<forall>s'. gen_next env flt (Merging summ q global_idx) s' =
           map_sum id (map_option (\<lambda>(y, g', e). (y, g', s'\<lparr>index_map := index_map s' @ [e]\<rparr>)))
             (Inl e)"
          using False pop ChunkItem Inl by simp
        then show ?thesis by blast
      next
        case (Inr recs)
        show ?thesis
        proof (cases "push_records summ flt (chunk_start_offset next_item) 0 recs q1")
          case (Inl e)
          have "\<forall>s'. gen_next env flt (Merging summ q global_idx) s' =
             map_sum id (map_option (\<lambda>(y, g', e). (y, g', s'\<lparr>index_map := index_map s' @ [e]\<rparr>)))
               (Inl e)"
            using False pop ChunkItem \<open>read_chunk env (chunk_start_offset next_item) = Inr recs\<close> Inl
            by simp
          then show ?thesis by blast
        next
          case (Inr q2)
          from "3.IH" [OF False pop [symmetric] ChunkItem
              \<open>read_chunk env (chunk_start_offset next_item) = Inr recs\<close> Inr]
          obtain r where r: "\<forall>s'. gen_next env flt (Merging summ q2 global_idx) s' =
             map_sum id (map_option (\<lambda>(y, g', e). (y, g', s'\<lparr>index_map := index_map s' @ [e]\<rparr>))) r"
            by blast
          have "\<forall>s'. gen_next env flt (Merging summ q global_idx) s' =
             map_sum id (map_option (\<lambda>(y, g', e). (y, g', s'\<lparr>index_map := index_map s' @ [e]\<rparr>))) r"
            using False pop ChunkItem \<open>read_chunk env (chunk_start_offset next_item) = Inr recs\<close> Inr r
            by simp
          then show ?thesis by blast
        qed
      qed
    qed
  qed
qed

lemma consume_all_state_free:
  fixes env :: "('sc, 'd) mcap" and s :: "'d indexed"
  shows "\<exists>ys zs e. \<forall>s'. consume_all env flt g s' =
     (ys, case e of None \<Rightarrow> Inr (s'\<lparr>index_map := index_map s' @ zs\<rparr>) | Some er \<Rightarrow> Inl er)"
proof (induction env flt g s rule: consume_all.induct)
  case (1 env flt g s)
  from gen_next_state_free [of env flt g] obtain r where
    r: "\<And>s'. gen_next env flt g s' =
       map_sum id (map_option (\<lambda>(y, g', e). (y, g', s'\<lparr>index_map := index_map s' @ [e]\<rparr>))) r"
    by blast
  show ?case
  proof (cases r)
    case (Inl er)
    have "\<forall>s'. consume_all env flt g s' =
       ([], case Some er of None \<Rightarrow> Inr (s'\<lparr>index_map := index_map s' @ []\<rparr>)
            | Some er \<Rightarrow> Inl er)"
      using r Inl by (subst consume_all.simps) simp
    then show ?thesis by blast
  next
    case (Inr o1)
    show ?thesis
    proof (cases o1)
      case None
      have "\<forall>s'. consume_all env flt g s' =
         ([], case None of None \<Rightarrow> Inr (s'\<lparr>index_map := index_map s' @ []\<rparr>)
              | Some er \<Rightarrow> Inl er)"
        using r Inr None by (subst consume_all.simps) simp
      then show ?thesis by blast
    next
      case (Some p)
      obtain y g' en where p: "p = (y, g', en)" by (cases p)
      have "gen_next env flt g s = Inr (Some (y, g', s\<lparr>index_map := index_map s @ [en]\<rparr>))"
        using r [of s] Inr Some p by simp
      moreover obtain a b c d where "y = (a, b, c, d)" by (cases y) auto
      ultimately have "\<exists>ys zs e. \<forall>s'. consume_all env flt g' s' =
          (ys, case e of None \<Rightarrow> Inr (s'\<lparr>index_map := index_map s' @ zs\<rparr>)
               | Some er \<Rightarrow> Inl er)"
        using "1.IH" by blast
      then obtain ys zs e where
        ih: "\<And>s'. consume_all env flt g' s' =
          (ys, case e of None \<Rightarrow> Inr (s'\<lparr>index_map := index_map s' @ zs\<rparr>)
               | Some er \<Rightarrow> Inl er)"
        by blast
      have "\<forall>s'. consume_all env flt g s' =
         (y # ys, case e of None \<Rightarrow> Inr (s'\<lparr>index_map := index_map s' @ (en # zs)\<rparr>)
              | Some er \<Rightarrow> Inl er)"
        using r Inr Some p ih by (subst consume_all.simps) (simp split: option.splits)
      then show ?thesis by blast
    qed
  qed
qed

lemma iter_messages_state_free:
  "\<exists>g. \<forall>s. iter_messages env flt s = (g, s\<lparr>index_map := []\<rparr>)"
proof (cases "get_summary env")
  case None
  then show ?thesis by (simp add: iter_messages_def Let_def)
next
  case (Some summ)
  then show ?thesis by (cases "chunk_indexes summ = []") (simp_all add: iter_messages_def Let_def)
qed

lemma run_iter_messages_state_free:
  fixes env :: "('sc, 'd) mcap"
  shows "\<exists>ys zs e. \<forall>s :: 'd indexed. run_iter_messages env flt s =
     (ys, case e of None \<Rightarrow> Inr (s\<lparr>index_map := zs\<rparr>) | Some er \<Rightarrow> Inl er)"
proof -
  from iter_messages_state_free [of env flt] obtain g where
    g: "\<And>s :: 'd indexed. iter_messages env flt s = (g, s\<lparr>index_map := []\<rparr>)"
    by blast
  from consume_all_state_free [of env flt g] obtain ys zs e where
    c: "\<And>s' :: 'd indexed. consume_all env flt g s' =
       (ys, case e of None \<Rightarrow> Inr (s'\<lparr>index_map := index_map s' @ zs\<rparr>) | Some er \<Rightarrow> Inl er)"
    by blast
  have "\<forall>s :: 'd indexed. run_iter_messages env flt s =
     (ys, case e of None \<Rightarrow> Inr (s\<lparr>index_map := zs\<rparr>) | Some er \<Rightarrow> Inl er)"
    by (simp add: run_iter_messages_def g c split: option.splits)
  then show ?thesis by blast
qed

text \<open>
  Claim C6. Two \<open>iter_messages\<close> runs with the same arguments over the same mcap file,
  each started afresh and run to its end, yield the same sequence of (schema, channel,
  message, global index) tuples, build the same index map and end the same way (to
  the end, or with the same exception), whatever state the reader was in when each run
  started: the first run may be any run, the second starts from what it left. The file,
  its summary and the library's queue discipline are the same for both runs; what the
  queue pops is a function of the items it holds and of its two flags.
\<close>

theorem iter_messages_deterministic:
  "fst (run_iter_messages env flt s') = fst (run_iter_messages env flt s) \<and>
   map_sum id index_map (snd (run_iter_messages env flt s')) =
     map_sum id index_map (snd (run_iter_messages env flt s))"
proof -
  from run_iter_messages_state_free [of env flt] obtain ys zs e where
    "\<And>s :: 'b indexed. run_iter_messages env flt s =
       (ys, case e of None \<Rightarrow> Inr (s\<lparr>index_map := zs\<rparr>) | Some er \<Rightarrow> Inl er)"
    by blast
  then show ?thesis by (simp split: option.splits)
qed

lemma gen_next_decoders:
  assumes "gen_next env flt g s = Inr (Some (y, g', s'))"
  shows "decoders s' = decoders s"
proof -
  from gen_next_state_free [of env flt g] obtain r where
    "\<And>s'. gen_next env flt g s' =
       map_sum id (map_option (\<lambda>(y, g', e). (y, g', s'\<lparr>index_map := index_map s' @ [e]\<rparr>))) r"
    by blast
  from this [of s] assms have
    e: "map_sum id (map_option (\<lambda>(y, g', e). (y, g', s\<lparr>index_map := index_map s @ [e]\<rparr>))) r =
        Inr (Some (y, g', s'))"
    by simp
  show ?thesis
  proof (cases r)
    case (Inl er)
    with e show ?thesis by simp
  next
    case (Inr b)
    show ?thesis
    proof (cases b)
      case None
      with e Inr show ?thesis by simp
    next
      case (Some p)
      with e Inr show ?thesis by (cases p) auto
    qed
  qed
qed

lemma scan_to_decoders:
  "scan_to env flt i g s = Inr s' \<Longrightarrow> decoders s' = decoders s"
proof (induction env flt i g s rule: scan_to.induct)
  case (1 env flt global_index g s)
  show ?case
  proof (cases "gen_next env flt g s")
    case (Inl e)
    with "1.prems" show ?thesis by (subst (asm) scan_to.simps) simp
  next
    case (Inr o1)
    show ?thesis
    proof (cases o1)
      case None
      with "1.prems" Inr show ?thesis by (subst (asm) scan_to.simps) simp
    next
      case (Some p)
      obtain a b c idx g' s1 where p: "p = ((a, b, c, idx), g', s1)"
        by (cases p) auto
      note d = gen_next_decoders [of env flt g s "(a, b, c, idx)" g' s1]
      show ?thesis
      proof (cases "int idx \<ge> global_index")
        case True
        with "1.prems" Inr Some p d show ?thesis by (subst (asm) scan_to.simps) simp
      next
        case False
        with "1.prems" Inr Some p have "scan_to env flt global_index g' s1 = Inr s'"
          by (subst (asm) scan_to.simps) simp
        with "1.IH" Inr Some p False d show ?thesis by simp
      qed
    qed
  qed
qed




text \<open>A full run over the example file, from a reader with a stale index map.\<close>

lemma example_run:
  "run_iter_messages example_mcap default_filters
     \<lparr>index_map = [(None, 7)], decoders = Map.empty\<rparr> =
   ([(None, \<lparr>topic = ''gt'', schema_id = 0, message_encoding = ''protobuf''\<rparr>,
      \<lparr>channel_id = 1, log_time = 1, data = [7]\<rparr>, 0),
     (None, \<lparr>topic = ''gt'', schema_id = 0, message_encoding = ''protobuf''\<rparr>,
      \<lparr>channel_id = 1, log_time = 3, data = [9]\<rparr>, 1)],
    Inr \<lparr>index_map = [(Some 100, 1), (Some 100, 2)], decoders = Map.empty\<rparr>)"
  by (simp add: run_iter_messages_def iter_messages_def consume_all.simps mq_pop_def
      default_filters_def example_mcap_def Let_def)


lemma example_get_past_end:
  "get example_mcap 2 \<lparr>index_map = [], decoders = Map.empty\<rparr> = Inl IndexError"
  by (simp add: get_def iter_messages_def scan_to.simps mq_pop_def lookup_entry_def
      decoded_message_def default_filters_def example_mcap_def Let_def)



end
